theory Spec2Isabelle
  imports Complex_Main "HOL-Library.Word" "HOL-Library.Monad_Syntax"
begin

section \<open>Single-precision scores\<close>

text \<open>
  Every score of the program is a C++ \<^verbatim>\<open>float\<close>. A value is a NaN, one of the two
  infinities, or a finite real; the two signed zeros are one value \<open>Fin 0\<close> (they compare
  equal and add alike). Addition rounds the exact sum to the nearest binary32 value, ties
  to the even mantissa, and overflows to an infinity, as IEEE 754 arithmetic does in the
  default rounding mode.
\<close>

datatype float = NaN | NInf | Fin real | PInf

text \<open>Nearest integer, ties to the even one.\<close>

definition round_even :: "real \<Rightarrow> int" where
  "round_even t = (let n = \<lfloor>t\<rfloor>; d = t - of_int n in
     if d < 1/2 then n else if 1/2 < d then n + 1 else if even n then n else n + 1)"

text \<open>
  The binary exponent of \<open>a\<close>, between \<open>-126\<close> (subnormal numbers share the smallest
  normal exponent) and \<open>127\<close>: the search runs down from \<open>n - 126\<close>.
\<close>

fun expo_from :: "real \<Rightarrow> nat \<Rightarrow> int" where
  "expo_from a 0 = -126"
| "expo_from a (Suc n) = (if 2 powi (int n - 125) \<le> a then int n - 125 else expo_from a n)"

definition expo :: "real \<Rightarrow> int" where
  "expo x = expo_from \<bar>x\<bar> 253"

text \<open>Rounding to 24 significant bits: the spacing of the values around \<open>x\<close> is \<open>2 powi (expo x - 23)\<close>.\<close>

definition rnd_val :: "real \<Rightarrow> real" where
  "rnd_val x = (let q = 2 powi (expo x - 23) in of_int (round_even (x / q)) * q)"

definition rnd32 :: "real \<Rightarrow> float" where
  "rnd32 x = (let r = rnd_val x in
     if 2 powi 128 \<le> r then PInf else if r \<le> - (2 powi 128) then NInf else Fin r)"

text \<open>A real number is a \<^verbatim>\<open>float\<close> value when rounding leaves it as it is.\<close>

definition is_float :: "real \<Rightarrow> bool" where
  "is_float x = (rnd32 x = Fin x)"

text \<open>\<^verbatim>\<open>a + b\<close> on floats.\<close>

fun fadd :: "float \<Rightarrow> float \<Rightarrow> float" where
  "fadd NaN b = NaN"
| "fadd a NaN = NaN"
| "fadd NInf PInf = NaN"
| "fadd PInf NInf = NaN"
| "fadd NInf b = NInf"
| "fadd a NInf = NInf"
| "fadd PInf b = PInf"
| "fadd a PInf = PInf"
| "fadd (Fin a) (Fin b) = rnd32 (a + b)"

text \<open>\<^verbatim>\<open>a < b\<close> on floats: false as soon as one side is a NaN.\<close>

fun fless :: "float \<Rightarrow> float \<Rightarrow> bool" where
  "fless NaN b = False"
| "fless a NaN = False"
| "fless a NInf = False"
| "fless NInf b = True"
| "fless PInf b = False"
| "fless (Fin a) PInf = True"
| "fless (Fin a) (Fin b) = (a < b)"

text \<open>\<^verbatim>\<open>a <= b\<close> on floats.\<close>

definition fle :: "float \<Rightarrow> float \<Rightarrow> bool" where
  "fle a b = (fless a b \<or> (a = b \<and> a \<noteq> NaN))"

text \<open>\<^verbatim>\<open>std::max(a, b)\<close> is \<^verbatim>\<open>(a < b) ? b : a\<close>.\<close>

definition std_max :: "float \<Rightarrow> float \<Rightarrow> float" where
  "std_max a b = (if fless a b then b else a)"

text \<open>
  Two scores in a relation that the recurrence preserves: the second is the first, or it
  is at least the first (and then neither is a NaN).
\<close>

definition grows :: "float \<Rightarrow> float \<Rightarrow> bool" where
  "grows a b = (a = b \<or> fle a b)"

section \<open>Constants of hmmer_types.hpp\<close>

definition digitalResidueSentinel :: "8 word" where "digitalResidueSentinel = 255"
definition digitalResidueIllegal :: "8 word" where "digitalResidueIllegal = 254"
definition p7P_NR :: int where "p7P_NR = 2"
definition p7P_MSC :: int where "p7P_MSC = 0"
definition p7P_ISC :: int where "p7P_ISC = 1"
definition p7G_NXCELLS :: int where "p7G_NXCELLS = 5"
definition p7G_M :: int where "p7G_M = 0"
definition p7G_I :: int where "p7G_I = 1"
definition p7G_D :: int where "p7G_D = 2"
definition p7G_NSCELLS :: int where "p7G_NSCELLS = 3"
definition eslNONSTANDARD :: int where "eslNONSTANDARD = 0"
definition p7P_NTRANS :: int where "p7P_NTRANS = 7"
definition p7P_NXSTATES :: nat where "p7P_NXSTATES = 5"
definition p7P_NXTRANS :: nat where "p7P_NXTRANS = 2"
definition p7_NEVPARAM :: nat where "p7_NEVPARAM = 6"
definition p7_NCUTOFFS :: nat where "p7_NCUTOFFS = 6"
definition p7_MAXABET :: nat where "p7_MAXABET = 20"

lemmas hmmer_consts = p7P_NR_def p7P_MSC_def p7P_ISC_def p7G_NXCELLS_def p7G_M_def
  p7G_I_def p7G_D_def p7G_NSCELLS_def

section \<open>Machine integers\<close>

text \<open>
  An \<^verbatim>\<open>int\<close> has 32 bits. \<open>int32 x\<close> is the \<^verbatim>\<open>int\<close> that the program holds where the
  exact result of an addition or a multiplication is \<open>x\<close>. Overflow of an \<^verbatim>\<open>int\<close> is
  undefined in C++; the compiled program wraps around (two's complement), and so does
  \<open>int32\<close>. The sizes that the two constructors compute are wrapped in this way. The
  indices and the loop counters of the scoring engine are exact integers: on a matrix
  that the constructor has built in full they stay below \<open>2^31\<close>.
\<close>

definition int32 :: "int \<Rightarrow> int" where
  "int32 x = (x + 2147483648) mod 4294967296 - 2147483648"

section \<open>Vectors and raw buffers\<close>

text \<open>
  \<^verbatim>\<open>operator[]\<close> of \<^verbatim>\<open>std::vector\<close> and a raw pointer do not check the index: an access
  out of range is undefined behaviour, and \<^verbatim>\<open>resize\<close> to a negative \<^verbatim>\<open>int\<close> (a huge
  \<^verbatim>\<open>size_t\<close>) throws. Both are the result \<open>None\<close>. Memory is not bounded: a \<^verbatim>\<open>resize\<close>
  to a length that is not negative succeeds.
\<close>

definition vec_read :: "'a list \<Rightarrow> int \<Rightarrow> 'a option" where
  "vec_read xs i = (if 0 \<le> i \<and> i < int (length xs) then Some (xs ! nat i) else None)"

definition vec_write :: "'a list \<Rightarrow> int \<Rightarrow> 'a \<Rightarrow> 'a list option" where
  "vec_write xs i v = (if 0 \<le> i \<and> i < int (length xs) then Some (xs[nat i := v]) else None)"

definition vec_resize :: "'a list \<Rightarrow> int \<Rightarrow> 'a \<Rightarrow> 'a list option" where
  "vec_resize xs n v =
     (if n < 0 then None else Some (take (nat n) xs @ replicate (nat n - length xs) v))"

section \<open>The alphabet (aa_alphabet.hpp, aa_alphabet.cpp)\<close>

record AminoAcidAlphabet =
  K :: int
  Kp :: int
  type_abc :: int
  sym_abc :: string
  inmap :: "int list"
  ndegen :: "int list"
  degen :: "8 word list"

definition set_degen :: "AminoAcidAlphabet \<Rightarrow> int \<Rightarrow> int \<Rightarrow> 8 word \<Rightarrow> AminoAcidAlphabet option" where
  "set_degen a row col val = do {
     d \<leftarrow> vec_write (degen a) (row * K a + col) val;
     Some (a\<lparr>degen := d\<rparr>) }"

definition get_degen :: "AminoAcidAlphabet \<Rightarrow> int \<Rightarrow> int \<Rightarrow> 8 word option" where
  "get_degen a row col = vec_read (degen a) (row * K a + col)"

text \<open>\<^verbatim>\<open>(int)c\<close> for a \<^verbatim>\<open>char\<close>, which is signed: the codes from 128 on are negative.\<close>

definition int_of_char :: "char \<Rightarrow> int" where
  "int_of_char c = (if (of_char c :: int) < 128 then of_char c else of_char c - 256)"

text \<open>Step C of the constructor: \<^verbatim>\<open>for (x = 0; x < Kp; x++) inmap[(int)sym[x]] = x\<close>.\<close>

function inmap_loop :: "int \<Rightarrow> AminoAcidAlphabet \<Rightarrow> AminoAcidAlphabet option" where
  "inmap_loop x a =
     (if x < Kp a then do {
        c \<leftarrow> vec_read (sym_abc a) x;
        m \<leftarrow> vec_write (inmap a) (int_of_char c) x;
        inmap_loop (x + 1) (a\<lparr>inmap := m\<rparr>) }
      else Some a)"
  by pat_completeness auto
termination
  by (relation "measure (\<lambda>(x, a). nat (Kp a - x))") auto

text \<open>Step D.1: \<^verbatim>\<open>for (x = 0; x < K; x++) { ndegen[x] = 1; set_degen(x, x, 1); }\<close>.\<close>

function base_loop :: "int \<Rightarrow> AminoAcidAlphabet \<Rightarrow> AminoAcidAlphabet option" where
  "base_loop x a =
     (if x < K a then do {
        n \<leftarrow> vec_write (ndegen a) x 1;
        a' \<leftarrow> set_degen (a\<lparr>ndegen := n\<rparr>) x x 1;
        base_loop (x + 1) a' }
      else Some a)"
  by pat_completeness auto
termination
  by (relation "measure (\<lambda>(x, a). nat (K a - x))")
     (auto simp: set_degen_def split: bind_splits)

text \<open>Step D.2: \<^verbatim>\<open>for (y = 0; y < K; y++) set_degen(any_idx, y, 1)\<close>.\<close>

function any_loop :: "int \<Rightarrow> int \<Rightarrow> AminoAcidAlphabet \<Rightarrow> AminoAcidAlphabet option" where
  "any_loop any_idx y a =
     (if y < K a then do {
        a' \<leftarrow> set_degen a any_idx y 1;
        any_loop any_idx (y + 1) a' }
      else Some a)"
  by pat_completeness auto
termination
  by (relation "measure (\<lambda>(any_idx, y, a). nat (K a - y))")
     (auto simp: set_degen_def split: bind_splits)

definition AminoAcidAlphabet_ctor :: "AminoAcidAlphabet option" where
  "AminoAcidAlphabet_ctor = do {
     let alphabet_str = ''ACDEFGHIKLMNPQRSTVWY-BJZOUX*~'';
     let a = \<lparr> K = 20, Kp = 29, type_abc = eslNONSTANDARD, sym_abc = alphabet_str,
               inmap = [], ndegen = [], degen = [] \<rparr>;
     im \<leftarrow> vec_resize (inmap a) 128 (uint digitalResidueIllegal);
     nd \<leftarrow> vec_resize (ndegen a) (Kp a) 0;
     dg \<leftarrow> vec_resize (degen a) (Kp a * K a) 0;
     a \<leftarrow> inmap_loop 0 (a\<lparr>inmap := im, ndegen := nd, degen := dg\<rparr>);
     a \<leftarrow> base_loop 0 a;
     let any_idx = Kp a - 3;
     nd \<leftarrow> vec_write (ndegen a) any_idx (K a);
     any_loop any_idx 0 (a\<lparr>ndegen := nd\<rparr>) }"

section \<open>The profile (profile.hpp)\<close>

record HMMProfile =
  tsc :: "float list"
  rsc :: "float list list"
  xsc :: "float list list"
  mode :: int
  sequence_length_gm :: int
  allocM :: int
  model_length :: int
  max_length :: int
  nj :: float
  evparam :: "float list"
  cutoff :: "float list"
  compo :: "float list"
  abc :: AminoAcidAlphabet
  name :: string

text \<open>\<^verbatim>\<open>match_score(k, x)\<close> reads \<^verbatim>\<open>rsc[x][k * p7P_NR + p7P_MSC]\<close>.\<close>

definition match_score :: "HMMProfile \<Rightarrow> int \<Rightarrow> int \<Rightarrow> float option" where
  "match_score p k residue_idx = do {
     row \<leftarrow> vec_read (rsc p) residue_idx;
     vec_read row (k * p7P_NR + p7P_MSC) }"

text \<open>An assignment through the reference that the non-const \<^verbatim>\<open>match_score(k, x)\<close> returns.\<close>

definition set_match_score :: "HMMProfile \<Rightarrow> int \<Rightarrow> int \<Rightarrow> float \<Rightarrow> HMMProfile option" where
  "set_match_score p k residue_idx v = do {
     row \<leftarrow> vec_read (rsc p) residue_idx;
     row' \<leftarrow> vec_write row (k * p7P_NR + p7P_MSC) v;
     r \<leftarrow> vec_write (rsc p) residue_idx row';
     Some (p\<lparr>rsc := r\<rparr>) }"

definition insert_score :: "HMMProfile \<Rightarrow> int \<Rightarrow> int \<Rightarrow> float option" where
  "insert_score p k residue_idx = do {
     row \<leftarrow> vec_read (rsc p) residue_idx;
     vec_read row (k * p7P_NR + p7P_ISC) }"

text \<open>
  The constructor. The fixed arrays \<^verbatim>\<open>xsc\<close>, \<^verbatim>\<open>evparam\<close>, \<^verbatim>\<open>cutoff\<close> and \<^verbatim>\<open>compo\<close>
  are filled with \<^verbatim>\<open>0.0f\<close> (each loop runs over the whole array); \<^verbatim>\<open>tsc\<close> and the rows
  of \<^verbatim>\<open>rsc\<close> are filled with \<^verbatim>\<open>-eslINFINITY\<close>, and the row of the gap symbol once more.
\<close>

function rsc_rows :: "int \<Rightarrow> int \<Rightarrow> int \<Rightarrow> float list list \<Rightarrow> float list list option" where
  "rsc_rows x n width r =
     (if x < n then do {
        row \<leftarrow> vec_read r x;
        row' \<leftarrow> vec_resize row width NInf;
        r' \<leftarrow> vec_write r x row';
        rsc_rows (x + 1) n width r' }
      else Some r)"
  by pat_completeness auto
termination
  by (relation "measure (\<lambda>(x, n, width, r). nat (n - x))") auto

definition HMMProfile_ctor :: "int \<Rightarrow> AminoAcidAlphabet \<Rightarrow> HMMProfile option" where
  "HMMProfile_ctor mod_length alphabet = do {
     let alloc = mod_length;
     t \<leftarrow> vec_resize [] (int32 (alloc * p7P_NTRANS)) NInf;
     let width = int32 (int32 (alloc + 1) * p7P_NR);
     r \<leftarrow> vec_resize [] (Kp alphabet) [];
     r \<leftarrow> rsc_rows 0 (Kp alphabet) width r;
     gap_idx \<leftarrow> vec_read (inmap alphabet) (int_of_char CHR ''-'');
     r \<leftarrow> (if gap_idx < Kp alphabet then do {
             row \<leftarrow> vec_read r gap_idx;
             vec_write r gap_idx (replicate (length row) NInf) }
           else Some r);
     Some \<lparr> tsc = t, rsc = r,
            xsc = replicate p7P_NXSTATES (replicate p7P_NXTRANS (Fin 0)),
            mode = 0, sequence_length_gm = 0, allocM = alloc, model_length = 0,
            max_length = -1, nj = Fin 0,
            evparam = replicate p7_NEVPARAM (Fin 0), cutoff = replicate p7_NCUTOFFS (Fin 0),
            compo = replicate p7_MAXABET (Fin 0), abc = alphabet, name = [] \<rparr> }"

section \<open>The matrix (dp_matrix.hpp)\<close>

record DPMatrix =
  model_length_mx :: int
  sequence_length_mx :: int
  allocR :: int
  validR :: int
  allocW :: int
  dp :: "float list list"
  xmx :: "float list"

text \<open>The cell \<^verbatim>\<open>dp[i][j]\<close>.\<close>

definition cell_read :: "DPMatrix \<Rightarrow> int \<Rightarrow> int \<Rightarrow> float option" where
  "cell_read m i j = do { row \<leftarrow> vec_read (dp m) i; vec_read row j }"

definition cell_write :: "DPMatrix \<Rightarrow> int \<Rightarrow> int \<Rightarrow> float \<Rightarrow> DPMatrix option" where
  "cell_write m i j v = do {
     row \<leftarrow> vec_read (dp m) i;
     row' \<leftarrow> vec_write row j v;
     d \<leftarrow> vec_write (dp m) i row';
     Some (m\<lparr>dp := d\<rparr>) }"

text \<open>The accessors \<^verbatim>\<open>match\<close>, \<^verbatim>\<open>insert\<close>, \<^verbatim>\<open>delete_state\<close> and \<^verbatim>\<open>special\<close>, read and written.\<close>

definition match_read :: "DPMatrix \<Rightarrow> int \<Rightarrow> int \<Rightarrow> float option" where
  "match_read m i k = cell_read m i (k * p7G_NSCELLS + p7G_M)"

definition match_write :: "DPMatrix \<Rightarrow> int \<Rightarrow> int \<Rightarrow> float \<Rightarrow> DPMatrix option" where
  "match_write m i k v = cell_write m i (k * p7G_NSCELLS + p7G_M) v"

definition insert_read :: "DPMatrix \<Rightarrow> int \<Rightarrow> int \<Rightarrow> float option" where
  "insert_read m i k = cell_read m i (k * p7G_NSCELLS + p7G_I)"

definition delete_state_read :: "DPMatrix \<Rightarrow> int \<Rightarrow> int \<Rightarrow> float option" where
  "delete_state_read m i k = cell_read m i (k * p7G_NSCELLS + p7G_D)"

definition special_read :: "DPMatrix \<Rightarrow> int \<Rightarrow> int \<Rightarrow> float option" where
  "special_read m i s = vec_read (xmx m) (i * p7G_NXCELLS + s)"

text \<open>
  The constructor's loop \<^verbatim>\<open>for (i = 0; i <= sequence_length; i++)
  dp[i].resize((model_length + 1) * p7G_NSCELLS, -eslINFINITY)\<close>. The loop ends: the
  counter is an index of \<^verbatim>\<open>dp\<close> as long as it runs, and once it has wrapped around it is
  negative.
\<close>

function DPMatrix_rows :: "int \<Rightarrow> int \<Rightarrow> int \<Rightarrow> float list list \<Rightarrow> float list list option" where
  "DPMatrix_rows i seq_length mod_length d =
     (if i \<le> seq_length then do {
        row \<leftarrow> vec_read d i;
        row' \<leftarrow> vec_resize row (int32 (int32 (mod_length + 1) * p7G_NSCELLS)) NInf;
        d' \<leftarrow> vec_write d i row';
        DPMatrix_rows (int32 (i + 1)) seq_length mod_length d' }
      else Some d)"
  by pat_completeness auto
termination
proof (relation "measure (\<lambda>(i, seq_length, mod_length, d).
         if i < 0 then 0 else if i < 2147483648 then nat (2147483648 - i) else 2147483649)")
  fix i seq_length mod_length :: int and d d' :: "float list list" and row row' :: "float list"
  assume "vec_read d i = Some row"
  then have i: "0 \<le> i" by (simp add: vec_read_def split: if_splits)
  have r: "- 2147483648 \<le> int32 (i + 1)" "int32 (i + 1) < 2147483648"
    by (simp_all add: int32_def)
  consider "i < 2147483647" | "i = 2147483647" | "2147483648 \<le> i" by linarith
  then show "((int32 (i + 1), seq_length, mod_length, d'), (i, seq_length, mod_length, d))
        \<in> measure (\<lambda>(i, seq_length, mod_length, d).
             if i < 0 then 0 else if i < 2147483648 then nat (2147483648 - i) else 2147483649)"
  proof cases
    case 1
    with i have "int32 (i + 1) = i + 1" by (simp add: int32_def)
    with 1 i show ?thesis by simp
  next
    case 2
    then show ?thesis by (simp add: int32_def)
  next
    case 3
    have "nat (2147483648 - int32 (i + 1)) < 2147483649" if "0 \<le> int32 (i + 1)"
      using that by linarith
    with 3 r show ?thesis by simp
  qed
qed simp

definition DPMatrix_ctor :: "int \<Rightarrow> int \<Rightarrow> DPMatrix option" where
  "DPMatrix_ctor max_model_length max_sequence_length = do {
     d \<leftarrow> vec_resize [] (int32 (max_sequence_length + 1)) [];
     d \<leftarrow> DPMatrix_rows 0 max_sequence_length max_model_length d;
     x \<leftarrow> vec_resize [] (int32 (int32 (max_sequence_length + 1) * p7G_NXCELLS)) NInf;
     Some \<lparr> model_length_mx = max_model_length, sequence_length_mx = max_sequence_length,
            allocR = int32 (max_sequence_length + 1), validR = int32 (max_sequence_length + 1),
            allocW = int32 (max_model_length + 1), dp = d, xmx = x \<rparr> }"

section \<open>The scoring engine (stub_msv.cpp)\<close>

text \<open>
  The two loops that store \<^verbatim>\<open>0.0f\<close> along a row, \<^verbatim>\<open>for (k = ...; k <= M; k++)
  dp_matrix.match(i, k) = 0.0f\<close>: from \<open>k = 0\<close> on row 0, from \<open>k = 1\<close> on the row of a
  residue that is skipped.
\<close>

function zero_row :: "int \<Rightarrow> int \<Rightarrow> int \<Rightarrow> DPMatrix \<Rightarrow> DPMatrix option" where
  "zero_row i k M dp_matrix =
     (if k \<le> M then do {
        m \<leftarrow> match_write dp_matrix i k (Fin 0);
        zero_row i (k + 1) M m }
      else Some dp_matrix)"
  by pat_completeness auto
termination
  by (relation "measure (\<lambda>(i, k, M, dp_matrix). nat (M + 1 - k))") auto

text \<open>One cell of the recurrence: the value stored at \<open>(i, k)\<close> from the cell \<open>(i - 1, k - 1)\<close> and the match score.\<close>

definition dp_step :: "float \<Rightarrow> float \<Rightarrow> float" where
  "dp_step prev ms =
     (let start_new = ms;
          extend_prev = fadd prev ms;
          dp_value = std_max start_new extend_prev
      in std_max (Fin 0) dp_value)"

text \<open>\<^verbatim>\<open>if (dp_value > max_score) max_score = dp_value\<close>.\<close>

definition track_max :: "float \<Rightarrow> float \<Rightarrow> float" where
  "track_max max_score dp_value = (if fless max_score dp_value then dp_value else max_score)"

text \<open>The inner loop over the model positions, for a canonical residue.\<close>

function score_row :: "HMMProfile \<Rightarrow> 8 word \<Rightarrow> int \<Rightarrow> int \<Rightarrow> int \<Rightarrow> DPMatrix \<times> float \<Rightarrow> (DPMatrix \<times> float) option" where
  "score_row profile residue i k M (dp_matrix, max_score) =
     (if k \<le> M then do {
        ms \<leftarrow> match_score profile k (uint residue);
        prev \<leftarrow> match_read dp_matrix (i - 1) (k - 1);
        let dp_value = dp_step prev ms;
        m \<leftarrow> match_write dp_matrix i k dp_value;
        score_row profile residue i (k + 1) M (m, track_max max_score dp_value) }
      else Some (dp_matrix, max_score))"
  by pat_completeness auto
termination
  by (relation "measure (\<lambda>(profile, residue, i, k, M, s). nat (M + 1 - k))") auto

text \<open>
  The outer loop over the sequence positions. The state is the memory the call reaches
  (the sequence buffer and the matrix) and the local \<^verbatim>\<open>max_score\<close>.
\<close>

function fill_rows :: "HMMProfile \<Rightarrow> int \<Rightarrow> int \<Rightarrow> int \<Rightarrow> 8 word list \<times> DPMatrix \<times> float \<Rightarrow> (8 word list \<times> DPMatrix \<times> float) option" where
  "fill_rows profile i L M (digital_sequence, dp_matrix, max_score) =
     (if i \<le> L then do {
        residue \<leftarrow> vec_read digital_sequence i;
        if 20 \<le> uint residue then do {
          m \<leftarrow> zero_row i 1 M dp_matrix;
          fill_rows profile (i + 1) L M (digital_sequence, m, max_score) }
        else do {
          (m, s) \<leftarrow> score_row profile residue i 1 M (dp_matrix, max_score);
          fill_rows profile (i + 1) L M (digital_sequence, m, s) } }
      else Some (digital_sequence, dp_matrix, max_score))"
  by pat_completeness auto
termination
  by (relation "measure (\<lambda>(profile, i, L, M, s). nat (L + 1 - i))") auto

text \<open>
  \<^verbatim>\<open>compute_msv\<close> returns the score; the model returns with it the sequence buffer and the
  matrix as the call leaves them.
\<close>

definition compute_msv :: "8 word list \<Rightarrow> int \<Rightarrow> HMMProfile \<Rightarrow> DPMatrix \<Rightarrow> float \<Rightarrow> (float \<times> 8 word list \<times> DPMatrix) option" where
  "compute_msv digital_sequence sequence_length profile dp_matrix expected_hit_count =
     (if sequence_length \<le> 0 \<or> model_length profile \<le> 0 then Some (Fin 0, digital_sequence, dp_matrix)
      else do {
        let M = model_length profile;
        let L = sequence_length;
        m \<leftarrow> zero_row 0 0 M dp_matrix;
        (s, m, max_score) \<leftarrow> fill_rows profile 1 L M (digital_sequence, m, Fin 0);
        Some (max_score, s, m) })"

section \<open>The cells a loop may change\<close>

text \<open>
  \<open>changes_within m m' i1 i2 k1 k2\<close>: the matrix \<open>m'\<close> is \<open>m\<close> except for match cells of the
  rows \<open>i1..i2\<close> at the model positions \<open>k1..k2\<close>; the special-state array is the same.
\<close>

definition changes_within :: "DPMatrix \<Rightarrow> DPMatrix \<Rightarrow> int \<Rightarrow> int \<Rightarrow> int \<Rightarrow> int \<Rightarrow> bool" where
  "changes_within m m' i1 i2 k1 k2 =
     (xmx m' = xmx m \<and>
      (\<forall>i j. cell_read m' i j \<noteq> cell_read m i j \<longrightarrow>
         i1 \<le> i \<and> i \<le> i2 \<and> (\<exists>k. k1 \<le> k \<and> k \<le> k2 \<and> j = k * p7G_NSCELLS + p7G_M)))"

section \<open>The recurrence, read off a matrix\<close>

text \<open>
  \<open>recurrence_row p S m M i\<close>: in the matrix \<open>m\<close>, row \<open>i\<close> holds at the model positions
  \<open>1..M\<close> what one pass of the outer loop stores there: 0 when the residue \<open>S[i]\<close> is
  20 or more, and otherwise the step from the cell \<open>(i - 1, k - 1)\<close> of \<open>m\<close> and the match
  score of \<open>S[i]\<close> at \<open>k\<close>.
\<close>

definition recurrence_row :: "HMMProfile \<Rightarrow> 8 word list \<Rightarrow> DPMatrix \<Rightarrow> int \<Rightarrow> int \<Rightarrow> bool" where
  "recurrence_row p S m M i =
     (case vec_read S i of
        None \<Rightarrow> False
      | Some r \<Rightarrow>
          if 20 \<le> uint r then (\<forall>k\<in>{1..M}. match_read m i k = Some (Fin 0))
          else (\<forall>k\<in>{1..M}.
                  case (match_score p k (uint r), match_read m (i - 1) (k - 1)) of
                    (Some ms, Some prev) \<Rightarrow> match_read m i k = Some (dp_step prev ms)
                  | _ \<Rightarrow> False))"

text \<open>
  The same recurrence as a function of the inputs alone, for a call on a matrix fresh from
  the constructor: row 0 is 0, column 0 below it is still negative infinity, and a cell
  \<open>(i, k)\<close> is 0 for a residue from 20 on and the step from \<open>(i - 1, k - 1)\<close> otherwise.
  (Where an access of the call would be out of range the value is immaterial: the call
  does not return.)
\<close>

function msv_cell :: "HMMProfile \<Rightarrow> 8 word list \<Rightarrow> int \<Rightarrow> int \<Rightarrow> float" where
  "msv_cell p S i k =
     (if i \<le> 0 then Fin 0
      else if k \<le> 0 then NInf
      else case vec_read S i of
             None \<Rightarrow> NaN
           | Some r \<Rightarrow>
               if 20 \<le> uint r then Fin 0
               else case match_score p k (uint r) of
                      None \<Rightarrow> NaN
                    | Some ms \<Rightarrow> dp_step (msv_cell p S (i - 1) (k - 1)) ms)"
  by pat_completeness auto
termination
  by (relation "measure (\<lambda>(p, S, i, k). nat i)") auto

text \<open>The sum \<open>c + c + ... + c\<close> of \<open>n\<close> terms, added from the left in float arithmetic.\<close>

fun iter_sum :: "nat \<Rightarrow> real \<Rightarrow> float" where
  "iter_sum 0 c = Fin 0"
| "iter_sum (Suc n) c = fadd (iter_sum n c) (Fin c)"

section \<open>The fixtures of the tests (test_vectors.hpp)\<close>

text \<open>\<^verbatim>\<open>create_digital_sequence\<close>: the residues between two sentinels.\<close>

definition create_digital_sequence :: "8 word list \<Rightarrow> 8 word list" where
  "create_digital_sequence residues = digitalResidueSentinel # residues @ [digitalResidueSentinel]"

text \<open>
  \<^verbatim>\<open>create_constant_score_profile\<close>: after the constructor, the loops
  \<^verbatim>\<open>for (k = 1; k <= model_length; k++) for (x = 0; x < abc.K; x++)
  profile.match_score(k, x) = match_score\<close>.
\<close>

function constant_residues :: "int \<Rightarrow> int \<Rightarrow> int \<Rightarrow> float \<Rightarrow> HMMProfile \<Rightarrow> HMMProfile option" where
  "constant_residues k x n v p =
     (if x < n then do {
        p' \<leftarrow> set_match_score p k x v;
        constant_residues k (x + 1) n v p' }
      else Some p)"
  by pat_completeness auto
termination
  by (relation "measure (\<lambda>(k, x, n, v, p). nat (n - x))") auto

function constant_positions :: "int \<Rightarrow> int \<Rightarrow> int \<Rightarrow> float \<Rightarrow> HMMProfile \<Rightarrow> HMMProfile option" where
  "constant_positions k M n v p =
     (if k \<le> M then do {
        p' \<leftarrow> constant_residues k 0 n v p;
        constant_positions (k + 1) M n v p' }
      else Some p)"
  by pat_completeness auto
termination
  by (relation "measure (\<lambda>(k, M, n, v, p). nat (M + 1 - k))") auto

definition create_constant_score_profile :: "int \<Rightarrow> float \<Rightarrow> AminoAcidAlphabet \<Rightarrow> HMMProfile option" where
  "create_constant_score_profile mod_length v alphabet = do {
     p \<leftarrow> HMMProfile_ctor mod_length alphabet;
     let p = p\<lparr>model_length := mod_length, name := ''constant_score_model'', max_length := 100\<rparr>;
     constant_positions 1 mod_length (K alphabet) v p }"

text \<open>\<^verbatim>\<open>get_test_alphabet\<close>: the alphabet every test shares.\<close>

definition get_test_alphabet :: AminoAcidAlphabet where
  "get_test_alphabet = the AminoAcidAlphabet_ctor"

section \<open>Loops are unfolded one iteration at a time\<close>

declare inmap_loop.simps [simp del] base_loop.simps [simp del] any_loop.simps [simp del]
declare rsc_rows.simps [simp del] DPMatrix_rows.simps [simp del]
declare zero_row.simps [simp del] score_row.simps [simp del] fill_rows.simps [simp del]
declare constant_residues.simps [simp del] constant_positions.simps [simp del]
declare msv_cell.simps [simp del]

section \<open>Rounding is monotone\<close>

lemma round_even_bounds: "t - 1/2 \<le> of_int (round_even t)" "of_int (round_even t) \<le> t + 1/2"
  unfolding round_even_def Let_def by (auto split: if_splits) linarith+

lemma round_even_of_int [simp]: "round_even (of_int n) = n"
  by (simp add: round_even_def)

lemma round_even_0 [simp]: "round_even 0 = 0"
  using round_even_of_int[of 0] by simp

lemma round_even_mono: assumes "s \<le> t" shows "round_even s \<le> round_even t"
proof (cases "\<lfloor>s\<rfloor> = \<lfloor>t\<rfloor>")
  case True
  with assms show ?thesis
    unfolding round_even_def Let_def by (auto split: if_splits)
next
  case False
  with assms have lt: "\<lfloor>s\<rfloor> < \<lfloor>t\<rfloor>" by (simp add: floor_mono order.not_eq_order_implies_strict)
  have "round_even s \<le> \<lfloor>s\<rfloor> + 1"
    unfolding round_even_def Let_def by (auto split: if_splits)
  moreover have "\<lfloor>t\<rfloor> \<le> round_even t"
    unfolding round_even_def Let_def by (auto split: if_splits)
  ultimately show ?thesis using lt by linarith
qed

lemma round_even_minus: "round_even (- t) = - round_even t"
proof (cases "of_int \<lfloor>t\<rfloor> = t")
  case True
  define n where "n = \<lfloor>t\<rfloor>"
  with True have t: "t = of_int n" by (simp only:)
  have "round_even (of_int (- n)) = - round_even (of_int n)"
    by (simp only: round_even_of_int)
  then show ?thesis by (simp add: t)
next
  case False
  from order.not_eq_order_implies_strict[OF False of_int_floor_le]
  have a: "of_int \<lfloor>t\<rfloor> < t" .
  have b: "t < of_int \<lfloor>t\<rfloor> + 1" by linarith
  have fl: "\<lfloor>- t\<rfloor> = - \<lfloor>t\<rfloor> - 1"
  proof (rule floor_unique)
    show "of_int (- \<lfloor>t\<rfloor> - 1) \<le> - t" using b by linarith
    show "- t < of_int (- \<lfloor>t\<rfloor> - 1) + 1" using a by simp
  qed
  show ?thesis
    unfolding round_even_def Let_def fl by (auto split: if_splits)
qed

lemma expo_from_range: "-126 \<le> expo_from a n \<and> expo_from a n \<le> int n - 126"
  by (induction n) auto

lemma expo_from_lower: "expo_from a n \<noteq> -126 \<Longrightarrow> 2 powi (expo_from a n) \<le> a"
  by (induction n) (auto split: if_splits)

lemma expo_from_upper: "expo_from a n < int n - 126 \<Longrightarrow> a < 2 powi (expo_from a n + 1)"
proof (induction n)
  case 0
  then show ?case by simp
next
  case (Suc n)
  show ?case
  proof (cases "2 powi (int n - 125) \<le> a")
    case True
    with Suc.prems show ?thesis by simp
  next
    case False
    then have a: "a < 2 powi (int n - 125)" by simp
    show ?thesis
    proof (cases "expo_from a n < int n - 126")
      case True
      with Suc.IH False show ?thesis by simp
    next
      case False
      with expo_from_range[of a n] have "expo_from a n = int n - 126" by linarith
      then have e: "expo_from a n + 1 = int n - 125" by linarith
      have eq: "expo_from a (Suc n) = expo_from a n" using \<open>\<not> 2 powi (int n - 125) \<le> a\<close> by simp
      show ?thesis unfolding eq e by (rule a)
    qed
  qed
qed

lemma expo_from_mono: "a \<le> b \<Longrightarrow> expo_from a n \<le> expo_from b n"
proof (induction n)
  case 0
  then show ?case by simp
next
  case (Suc n)
  with expo_from_range[of a n] show ?case by auto
qed

lemma expo_range: "-126 \<le> expo x" "expo x \<le> 127"
  using expo_from_range[of "\<bar>x\<bar>" 253] by (simp_all add: expo_def)

lemma expo_minus [simp]: "expo (- x) = expo x"
  by (simp add: expo_def)

lemma expo_lower: "expo x \<noteq> -126 \<Longrightarrow> 2 powi (expo x) \<le> \<bar>x\<bar>"
  unfolding expo_def by (rule expo_from_lower)

lemma expo_upper: "expo x \<noteq> 127 \<Longrightarrow> \<bar>x\<bar> < 2 powi (expo x + 1)"
  unfolding expo_def using expo_from_upper[of "\<bar>x\<bar>" 253] expo_from_range[of "\<bar>x\<bar>" 253] by simp

lemma expo_mono: "\<bar>x\<bar> \<le> \<bar>y\<bar> \<Longrightarrow> expo x \<le> expo y"
  unfolding expo_def by (rule expo_from_mono)

lemma quantum_scale: "(2::real) powi (e - 23) * 2 ^ 23 = 2 powi e"
proof -
  have "(2::real) powi ((e - 23) + 23) = 2 powi (e - 23) * 2 powi 23"
    by (rule power_int_add) simp
  then show ?thesis by simp
qed

lemma quantum_scale': "(2::real) powi (e - 23) * 2 ^ 24 = 2 powi (e + 1)"
proof -
  have "(2::real) powi ((e - 23) + 24) = 2 powi (e - 23) * 2 powi 24"
    by (rule power_int_add) simp
  then show ?thesis by (simp add: add.commute)
qed

lemma rnd_val_minus: "rnd_val (- x) = - rnd_val x"
  by (simp add: rnd_val_def Let_def round_even_minus)

lemma rnd_val_nonneg: "0 \<le> x \<Longrightarrow> 0 \<le> rnd_val x"
proof -
  assume "0 \<le> x"
  then have "0 \<le> x / 2 powi (expo x - 23)" by simp
  from round_even_mono[OF this] show ?thesis by (simp add: rnd_val_def Let_def)
qed

lemma rnd_val_ge_pow: assumes "expo x \<noteq> -126" "0 \<le> x" shows "2 powi (expo x) \<le> rnd_val x"
proof -
  let ?q = "2 powi (expo x - 23) :: real"
  have q: "0 < ?q" by simp
  have "2 powi (expo x) \<le> x" using expo_lower[OF assms(1)] assms(2) by simp
  then have "?q * 2 ^ 23 \<le> x" by (simp only: quantum_scale)
  then have "of_int (2 ^ 23) \<le> x / ?q" using q by (simp add: pos_le_divide_eq mult.commute)
  from round_even_mono[OF this] have "2 ^ 23 \<le> round_even (x / ?q)"
    by (simp only: round_even_of_int)
  then have "(of_int (2 ^ 23) :: real) \<le> of_int (round_even (x / ?q))"
    by (simp only: of_int_le_iff)
  then have A: "of_int (2 ^ 23) * ?q \<le> of_int (round_even (x / ?q)) * ?q"
    using q by (simp only: mult_le_cancel_right_pos)
  have B: "of_int (2 ^ 23) * ?q = 2 powi (expo x)"
    using quantum_scale[of "expo x"] by (simp add: mult.commute)
  from A[unfolded B] show ?thesis unfolding rnd_val_def Let_def .
qed

lemma rnd_val_le_pow: assumes "expo x \<noteq> 127" "0 \<le> x" shows "rnd_val x \<le> 2 powi (expo x + 1)"
proof -
  let ?q = "2 powi (expo x - 23) :: real"
  have q: "0 < ?q" by simp
  have "x \<le> 2 powi (expo x + 1)" using expo_upper[OF assms(1)] assms(2) by simp
  then have "x \<le> ?q * 2 ^ 24" by (simp only: quantum_scale')
  then have "x / ?q \<le> of_int (2 ^ 24)" using q by (simp add: pos_divide_le_eq mult.commute)
  from round_even_mono[OF this] have "round_even (x / ?q) \<le> 2 ^ 24"
    by (simp only: round_even_of_int)
  then have "of_int (round_even (x / ?q)) \<le> (of_int (2 ^ 24) :: real)"
    by (simp only: of_int_le_iff)
  then have A: "of_int (round_even (x / ?q)) * ?q \<le> of_int (2 ^ 24) * ?q"
    using q by (simp only: mult_le_cancel_right_pos)
  have B: "of_int (2 ^ 24) * ?q = 2 powi (expo x + 1)"
    using quantum_scale'[of "expo x"] by (simp add: mult.commute)
  from A[unfolded B] show ?thesis unfolding rnd_val_def Let_def .
qed

lemma rnd_val_mono_nonneg: assumes "0 \<le> x" "x \<le> y" shows "rnd_val x \<le> rnd_val y"
proof -
  have le: "expo x \<le> expo y" using assms by (intro expo_mono) simp
  show ?thesis
  proof (cases "expo x = expo y")
    case True
    let ?q = "2 powi (expo y - 23) :: real"
    have "x / ?q \<le> y / ?q" using assms by (simp add: divide_right_mono)
    from round_even_mono[OF this] show ?thesis
      by (simp add: rnd_val_def Let_def True)
  next
    case False
    with le have lt: "expo x < expo y" by simp
    then have "expo x \<noteq> 127" "expo y \<noteq> -126" using expo_range[of x] expo_range[of y] by linarith+
    then have "rnd_val x \<le> 2 powi (expo x + 1)" "2 powi (expo y) \<le> rnd_val y"
      using rnd_val_le_pow rnd_val_ge_pow assms by auto
    moreover have "(2::real) powi (expo x + 1) \<le> 2 powi (expo y)"
      using lt by (intro power_int_increasing) auto
    ultimately show ?thesis by linarith
  qed
qed

lemma rnd_val_mono: assumes "x \<le> y" shows "rnd_val x \<le> rnd_val y"
proof -
  consider "0 \<le> x" | "x < 0" "0 \<le> y" | "y < 0" by linarith
  then show ?thesis
  proof cases
    case 1
    from 1 assms show ?thesis by (rule rnd_val_mono_nonneg)
  next
    case 2
    then have "0 \<le> rnd_val (- x)" "0 \<le> rnd_val y" by (simp_all add: rnd_val_nonneg)
    then show ?thesis by (simp add: rnd_val_minus)
  next
    case 3
    then have "rnd_val (- y) \<le> rnd_val (- x)" using assms by (intro rnd_val_mono_nonneg) auto
    then show ?thesis by (simp add: rnd_val_minus)
  qed
qed

lemma rnd_val_0 [simp]: "rnd_val 0 = 0"
  by (simp add: rnd_val_def)

section \<open>The order of the scores and one step of the recurrence\<close>

lemma rnd32_not_NaN [simp]: "rnd32 x \<noteq> NaN"
  by (simp add: rnd32_def Let_def)

lemma rnd32_0 [simp]: "rnd32 0 = Fin 0"
  by (simp add: rnd32_def Let_def)

lemma rnd32_mono: "x \<le> y \<Longrightarrow> fle (rnd32 x) (rnd32 y)"
  using rnd_val_mono[of x y]
  by (auto simp: rnd32_def Let_def fle_def)

lemma fle_refl [simp]: "a \<noteq> NaN \<Longrightarrow> fle a a"
  by (simp add: fle_def)

lemma fle_Fin [simp]: "fle (Fin a) (Fin b) \<longleftrightarrow> a \<le> b"
  by (auto simp: fle_def)

lemma fle_NaN [simp]: "\<not> fle NaN b" "\<not> fle a NaN"
  by (cases a; simp add: fle_def)+

lemma fle_trans: "fle a b \<Longrightarrow> fle b c \<Longrightarrow> fle a c"
  by (cases a; cases b; cases c) (auto simp: fle_def)

lemma fle_antisym: "fle a b \<Longrightarrow> fle b a \<Longrightarrow> a = b"
  by (cases a; cases b) (auto simp: fle_def)

lemma fle_total: "a \<noteq> NaN \<Longrightarrow> b \<noteq> NaN \<Longrightarrow> fle a b \<or> fle b a"
  by (cases a; cases b) (auto simp: fle_def)

lemma not_fless_iff: "a \<noteq> NaN \<Longrightarrow> b \<noteq> NaN \<Longrightarrow> \<not> fless a b \<longleftrightarrow> fle b a"
  by (cases a; cases b) (auto simp: fle_def)

lemma fless_imp_fle: "fless a b \<Longrightarrow> fle a b"
  by (simp add: fle_def)

lemma fle_NInf [simp]: "b \<noteq> NaN \<Longrightarrow> fle NInf b"
  by (cases b) (auto simp: fle_def)

lemma fle_PInf [simp]: "a \<noteq> NaN \<Longrightarrow> fle a PInf"
  by (cases a) (auto simp: fle_def)

lemma fle_PInf_left [simp]: "fle PInf b \<longleftrightarrow> b = PInf"
  by (cases b) (auto simp: fle_def)

lemma fle_NInf_right [simp]: "fle a NInf \<longleftrightarrow> a = NInf"
  by (cases a) (auto simp: fle_def)

lemma std_max_zero_Fin [simp]: "std_max (Fin 0) (Fin x) = Fin (max 0 x)"
  by (auto simp: std_max_def)

lemma std_max_zero_nonneg: "fle (Fin 0) (std_max (Fin 0) x)"
  by (cases x) (auto simp: std_max_def fle_def)

lemma dp_step_nonneg: "fle (Fin 0) (dp_step prev ms)"
  by (simp add: dp_step_def Let_def std_max_zero_nonneg)

lemma dp_step_not_NaN [simp]: "dp_step prev ms \<noteq> NaN"
  using dp_step_nonneg[of prev ms] by (metis fle_NaN(2))

lemma std_max_zero_mono: "grows x y \<Longrightarrow> fle (std_max (Fin 0) x) (std_max (Fin 0) y)"
  by (cases x; cases y) (auto simp: std_max_def fle_def grows_def)

lemma fadd_Fin_mono_right: "a \<le> b \<Longrightarrow> fle (fadd (Fin p) (Fin a)) (fadd (Fin p) (Fin b))"
  by (simp add: rnd32_mono)

lemma fadd_Fin_mono_left: "a \<le> b \<Longrightarrow> fle (fadd (Fin a) (Fin r)) (fadd (Fin b) (Fin r))"
  by (simp add: rnd32_mono)

lemma std_max_mono2: "fle x y \<Longrightarrow> fle a b \<Longrightarrow> fle (std_max a x) (std_max b y)"
  by (cases a; cases b; cases x; cases y) (auto simp: std_max_def fle_def)

lemma dp_step_PInf [simp]: "dp_step p PInf = PInf"
  by (cases p) (auto simp: dp_step_def Let_def std_max_def)

lemma dp_step_NInf [simp]: "dp_step p NInf = Fin 0"
  by (cases p) (auto simp: dp_step_def Let_def std_max_def)

lemma dp_step_NaN [simp]: "dp_step p NaN = Fin 0"
  by (cases p) (auto simp: dp_step_def Let_def std_max_def)

lemma dp_step_prev_NInf: "dp_step NInf r = std_max (Fin 0) r"
  by (cases r) (auto simp: dp_step_def Let_def std_max_def)

lemma dp_step_prev_NaN: "dp_step NaN r = std_max (Fin 0) r"
  by (cases r) (auto simp: dp_step_def Let_def std_max_def)

lemma dp_step_prev_PInf: "dp_step PInf (Fin x) = PInf"
  by (auto simp: dp_step_def Let_def std_max_def)

lemma dp_step_Fin: "dp_step (Fin a) (Fin x) = std_max (Fin 0) (std_max (Fin x) (rnd32 (a + x)))"
  by (simp add: dp_step_def Let_def)

lemma std_max_ge_left: "a \<noteq> NaN \<Longrightarrow> u \<noteq> NaN \<Longrightarrow> fle a (std_max a u)"
  by (cases a; cases u) (auto simp: std_max_def fle_def)

lemma dp_step_Fin_ge: "fle (Fin (max 0 x)) (dp_step p (Fin x))"
proof (cases p)
  case (Fin a)
  have "grows (Fin x) (std_max (Fin x) (rnd32 (a + x)))"
    by (simp add: grows_def std_max_ge_left)
  then have "fle (std_max (Fin 0) (Fin x)) (std_max (Fin 0) (std_max (Fin x) (rnd32 (a + x))))"
    by (rule std_max_zero_mono)
  then show ?thesis unfolding Fin dp_step_Fin by simp
qed (simp_all add: dp_step_prev_NInf dp_step_prev_NaN dp_step_prev_PInf)

lemma dp_step_mono_ms: assumes "grows r r'" shows "fle (dp_step p r) (dp_step p r')"
proof (cases "r = r'")
  case True
  then show ?thesis by simp
next
  case False
  with assms have le: "fle r r'" by (simp add: grows_def)
  show ?thesis
  proof (cases r; cases r')
    fix x y assume r: "r = Fin x" "r' = Fin y"
    with le have xy: "x \<le> y" by simp
    show ?thesis
    proof (cases p)
      case (Fin a)
      from xy have "fle (rnd32 (a + x)) (rnd32 (a + y))" by (intro rnd32_mono) simp
      with xy have "grows (std_max (Fin x) (rnd32 (a + x))) (std_max (Fin y) (rnd32 (a + y)))"
        by (simp add: grows_def std_max_mono2)
      then show ?thesis unfolding r Fin dp_step_Fin by (rule std_max_zero_mono)
    qed (use xy in \<open>simp_all add: r dp_step_prev_NInf dp_step_prev_NaN dp_step_prev_PInf std_max_def\<close>)
  qed (use le in \<open>simp_all add: dp_step_nonneg\<close>)
qed

lemma dp_step_mono_prev: assumes "grows p p'" shows "fle (dp_step p r) (dp_step p' r)"
proof (cases "p = p'")
  case True
  then show ?thesis by simp
next
  case False
  with assms have le: "fle p p'" by (simp add: grows_def)
  show ?thesis
  proof (cases r)
    case (Fin x)
    show ?thesis
    proof (cases p; cases p')
      fix a b assume p: "p = Fin a" "p' = Fin b"
      with le have "a \<le> b" by simp
      then have "fle (rnd32 (a + x)) (rnd32 (b + x))" by (intro rnd32_mono) simp
      then have "grows (std_max (Fin x) (rnd32 (a + x))) (std_max (Fin x) (rnd32 (b + x)))"
        by (simp add: grows_def std_max_mono2)
      then show ?thesis unfolding p Fin dp_step_Fin by (rule std_max_zero_mono)
    qed (use le in \<open>simp_all add: Fin dp_step_prev_NInf dp_step_prev_PInf dp_step_Fin_ge\<close>)
  qed simp_all
qed

lemma dp_step_mono: "grows p p' \<Longrightarrow> grows r r' \<Longrightarrow> fle (dp_step p r) (dp_step p' r')"
  using dp_step_mono_prev[of p p' r] dp_step_mono_ms[of r r' p'] by (rule fle_trans)

lemma track_max_mono: "fle s s' \<Longrightarrow> grows v v' \<Longrightarrow> fle (track_max s v) (track_max s' v')"
  by (cases s; cases s'; cases v; cases v') (auto simp: track_max_def fle_def grows_def)

lemma track_max_nonneg: "fle (Fin 0) s \<Longrightarrow> fle (Fin 0) (track_max s v)"
  by (cases s; cases v) (auto simp: track_max_def fle_def)

section \<open>Facts about vectors\<close>

lemma vec_read_Some_iff:
  "vec_read xs i = Some v \<longleftrightarrow> 0 \<le> i \<and> i < int (length xs) \<and> xs ! nat i = v"
  by (auto simp: vec_read_def)

lemma vec_read_None_iff: "vec_read xs i = None \<longleftrightarrow> \<not> (0 \<le> i \<and> i < int (length xs))"
  by (auto simp: vec_read_def)

lemma vec_read_replicate:
  "vec_read (replicate n v) i = (if 0 \<le> i \<and> i < int n then Some v else None)"
  by (auto simp: vec_read_def)

section \<open>Reading a cell after a write\<close>

lemma cell_write_Some_iff:
  "cell_write m i j v = Some m' \<longleftrightarrow>
     0 \<le> i \<and> i < int (length (dp m)) \<and> 0 \<le> j \<and> j < int (length (dp m ! nat i)) \<and>
     m' = m\<lparr>dp := (dp m)[nat i := (dp m ! nat i)[nat j := v]]\<rparr>"
  unfolding cell_write_def vec_read_def vec_write_def
  by (auto split: bind_splits if_splits)

lemma cell_read_Some_iff:
  "cell_read m i j = Some x \<longleftrightarrow>
     0 \<le> i \<and> i < int (length (dp m)) \<and> 0 \<le> j \<and> j < int (length (dp m ! nat i)) \<and>
     dp m ! nat i ! nat j = x"
  unfolding cell_read_def vec_read_def
  by (auto split: bind_splits if_splits)

lemma cell_read_None_iff:
  "cell_read m i j = None \<longleftrightarrow>
     \<not> (0 \<le> i \<and> i < int (length (dp m)) \<and> 0 \<le> j \<and> j < int (length (dp m ! nat i)))"
  unfolding cell_read_def vec_read_def
  by (auto split: bind_splits if_splits)

lemma cell_write_None_iff: "cell_write m i j v = None \<longleftrightarrow> cell_read m i j = None"
  using cell_write_Some_iff[of m i j v] cell_read_None_iff[of m i j]
  by (cases "cell_write m i j v") auto

lemma cell_read_cell_write:
  assumes "cell_write m i j v = Some m'"
  shows "cell_read m' i' j' = (if i' = i \<and> j' = j then Some v else cell_read m i' j')"
proof -
  from assms have r: "0 \<le> i" "i < int (length (dp m))" "0 \<le> j" "j < int (length (dp m ! nat i))"
    and d: "dp m' = (dp m)[nat i := (dp m ! nat i)[nat j := v]]"
    by (simp_all add: cell_write_Some_iff)
  show ?thesis
  proof (cases "0 \<le> i' \<and> i' < int (length (dp m))")
    case False
    then show ?thesis using r by (auto simp: cell_read_def vec_read_def d)
  next
    case True
    show ?thesis
    proof (cases "i' = i")
      case False
      with True have "nat i' \<noteq> nat i" using r by linarith
      then show ?thesis using True False by (simp add: cell_read_def vec_read_def d)
    next
      case i: True
      show ?thesis
      proof (cases "0 \<le> j' \<and> j' < int (length (dp m ! nat i))")
        case False
        then show ?thesis using r i by (auto simp: cell_read_def vec_read_def d)
      next
        case True
        have "nat j = nat j' \<longleftrightarrow> j' = j" using True r by linarith
        then show ?thesis using True r i
          by (auto simp: cell_read_def vec_read_def d nth_list_update)
      qed
    qed
  qed
qed

lemma cell_write_xmx: "cell_write m i j v = Some m' \<Longrightarrow> xmx m' = xmx m"
  by (simp add: cell_write_Some_iff)

lemma match_write_None_iff: "match_write m i k v = None \<longleftrightarrow> match_read m i k = None"
  by (simp add: match_write_def match_read_def cell_write_None_iff)

lemma cell_read_match_write:
  "match_write m i k v = Some m' \<Longrightarrow>
   cell_read m' i' j' = (if i' = i \<and> j' = k * p7G_NSCELLS + p7G_M then Some v else cell_read m i' j')"
  unfolding match_write_def by (rule cell_read_cell_write)

lemma match_read_match_write:
  "match_write m i k v = Some m' \<Longrightarrow>
   match_read m' i' k' = (if i' = i \<and> k' = k then Some v else match_read m i' k')"
  by (auto simp: match_read_def cell_read_match_write hmmer_consts)

lemma match_write_xmx: "match_write m i k v = Some m' \<Longrightarrow> xmx m' = xmx m"
  unfolding match_write_def by (rule cell_write_xmx)

section \<open>What the loops leave alone\<close>

lemma changes_within_refl: "changes_within m m i1 i2 k1 k2"
  by (simp add: changes_within_def)

lemma changes_within_trans:
  assumes "changes_within m m1 i1 i2 k1 k2" "changes_within m1 m2 i1 i2 k1 k2"
  shows "changes_within m m2 i1 i2 k1 k2"
proof -
  have "xmx m2 = xmx m" using assms by (simp add: changes_within_def)
  moreover have "i1 \<le> i \<and> i \<le> i2 \<and> (\<exists>k. k1 \<le> k \<and> k \<le> k2 \<and> j = k * p7G_NSCELLS + p7G_M)"
    if ne: "cell_read m2 i j \<noteq> cell_read m i j" for i j
  proof -
    from ne have "cell_read m2 i j \<noteq> cell_read m1 i j \<or> cell_read m1 i j \<noteq> cell_read m i j" by auto
    then show ?thesis using assms unfolding changes_within_def by blast
  qed
  ultimately show ?thesis unfolding changes_within_def by blast
qed

lemma changes_within_mono:
  assumes "changes_within m m' i1 i2 k1 k2" "a1 \<le> i1" "i2 \<le> a2" "b1 \<le> k1" "k2 \<le> b2"
  shows "changes_within m m' a1 a2 b1 b2"
proof -
  have "xmx m' = xmx m" using assms by (simp add: changes_within_def)
  moreover have "a1 \<le> i \<and> i \<le> a2 \<and> (\<exists>k. b1 \<le> k \<and> k \<le> b2 \<and> j = k * p7G_NSCELLS + p7G_M)"
    if "cell_read m' i j \<noteq> cell_read m i j" for i j
  proof -
    from that assms(1) obtain k where "i1 \<le> i" "i \<le> i2" "k1 \<le> k" "k \<le> k2" "j = k * p7G_NSCELLS + p7G_M"
      unfolding changes_within_def by blast
    with assms(2-) show ?thesis by (intro conjI exI[of _ k]) auto
  qed
  ultimately show ?thesis unfolding changes_within_def by blast
qed

lemma changes_withinD:
  assumes "changes_within m m' i1 i2 k1 k2"
    and "\<not> (i1 \<le> i \<and> i \<le> i2 \<and> k1 \<le> k \<and> k \<le> k2)"
  shows "match_read m' i k = match_read m i k"
proof (rule ccontr)
  assume "match_read m' i k \<noteq> match_read m i k"
  then have "cell_read m' i (k * p7G_NSCELLS + p7G_M) \<noteq> cell_read m i (k * p7G_NSCELLS + p7G_M)"
    by (simp add: match_read_def)
  with assms(1) obtain k' where "i1 \<le> i" "i \<le> i2" "k1 \<le> k'" "k' \<le> k2"
    "k * p7G_NSCELLS + p7G_M = k' * p7G_NSCELLS + p7G_M"
    unfolding changes_within_def by blast
  with assms(2) show False by (simp add: hmmer_consts)
qed

lemma match_write_changes:
  assumes "match_write m i k v = Some m'"
  shows "changes_within m m' i i k k"
  unfolding changes_within_def
  using cell_read_match_write[OF assms] match_write_xmx[OF assms]
  by (auto split: if_splits)

lemma zero_row_changes:
  assumes "zero_row i k M m = Some m'"
  shows "changes_within m m' i i k M"
  using assms
proof (induction "nat (M + 1 - k)" arbitrary: k m)
  case 0
  then have "\<not> k \<le> M" by simp
  with "0.prems" show ?case by (simp add: zero_row.simps[of i k] changes_within_refl)
next
  case (Suc n)
  then have le: "k \<le> M" by simp
  with Suc.prems obtain m1 where w: "match_write m i k (Fin 0) = Some m1"
    and z: "zero_row i (k + 1) M m1 = Some m'"
    by (auto simp: zero_row.simps[of i k] split: bind_splits)
  from Suc.hyps(2) have n: "n = nat (M + 1 - (k + 1))" by simp
  have "changes_within m m1 i i k M"
    by (rule changes_within_mono[OF match_write_changes[OF w]]) (use le in auto)
  moreover have "changes_within m1 m' i i k M"
    by (rule changes_within_mono[OF Suc.hyps(1)[OF n z]]) auto
  ultimately show ?case by (rule changes_within_trans)
qed

lemma score_row_changes:
  assumes "score_row p r i k M (m, s) = Some (m', s')"
  shows "changes_within m m' i i k M"
  using assms
proof (induction "nat (M + 1 - k)" arbitrary: k m s)
  case 0
  then have "\<not> k \<le> M" by simp
  with "0.prems" show ?case by (simp add: score_row.simps[of p r i k] changes_within_refl)
next
  case (Suc n)
  then have le: "k \<le> M" by simp
  with Suc.prems obtain ms prev m1 where
    w: "match_write m i k (dp_step prev ms) = Some m1"
    and z: "score_row p r i (k + 1) M (m1, track_max s (dp_step prev ms)) = Some (m', s')"
    by (auto simp: score_row.simps[of p r i k] Let_def split: bind_splits)
  from Suc.hyps(2) have n: "n = nat (M + 1 - (k + 1))" by simp
  have "changes_within m m1 i i k M"
    by (rule changes_within_mono[OF match_write_changes[OF w]]) (use le in auto)
  moreover have "changes_within m1 m' i i k M"
    by (rule changes_within_mono[OF Suc.hyps(1)[OF n z]]) auto
  ultimately show ?case by (rule changes_within_trans)
qed

lemma fill_rows_changes:
  assumes "fill_rows p i L M (S, m, s) = Some (S', m', s')"
  shows "S' = S \<and> changes_within m m' i L 1 M"
  using assms
proof (induction "nat (L + 1 - i)" arbitrary: i m s)
  case 0
  then have "\<not> i \<le> L" by simp
  with "0.prems" show ?case by (simp add: fill_rows.simps[of p i] changes_within_refl)
next
  case (Suc n)
  then have le: "i \<le> L" by simp
  from Suc.hyps(2) have n: "n = nat (L + 1 - (i + 1))" by simp
  from Suc.prems le obtain r where r: "vec_read S i = Some r"
    by (auto simp: fill_rows.simps[of p i] split: bind_splits)
  show ?case
  proof (cases "20 \<le> uint r")
    case True
    with Suc.prems le r obtain m1 where z: "zero_row i 1 M m = Some m1"
      and f: "fill_rows p (i + 1) L M (S, m1, s) = Some (S', m', s')"
      by (auto simp: fill_rows.simps[of p i] split: bind_splits)
    have "changes_within m m1 i L 1 M"
      by (rule changes_within_mono[OF zero_row_changes[OF z]]) (use le in auto)
    moreover from Suc.hyps(1)[OF n f] have "S' = S" "changes_within m1 m' i L 1 M"
      by (auto intro: changes_within_mono)
    ultimately show ?thesis by (auto intro: changes_within_trans)
  next
    case False
    with Suc.prems le r obtain m1 s1 where z: "score_row p r i 1 M (m, s) = Some (m1, s1)"
      and f: "fill_rows p (i + 1) L M (S, m1, s1) = Some (S', m', s')"
      by (auto simp: fill_rows.simps[of p i] split: bind_splits)
    have "changes_within m m1 i L 1 M"
      by (rule changes_within_mono[OF score_row_changes[OF z]]) (use le in auto)
    moreover from Suc.hyps(1)[OF n f] have "S' = S" "changes_within m1 m' i L 1 M"
      by (auto intro: changes_within_mono)
    ultimately show ?thesis by (auto intro: changes_within_trans)
  qed
qed

section \<open>What the loops store\<close>

lemma zero_row_cells:
  assumes "zero_row i k M m = Some m'" "k \<le> k'" "k' \<le> M"
  shows "match_read m' i k' = Some (Fin 0)"
  using assms
proof (induction "nat (M + 1 - k)" arbitrary: k m)
  case 0
  then show ?case by simp
next
  case (Suc n)
  then have le: "k \<le> M" by simp
  with Suc.prems obtain m1 where w: "match_write m i k (Fin 0) = Some m1"
    and z: "zero_row i (k + 1) M m1 = Some m'"
    by (auto simp: zero_row.simps[of i k] split: bind_splits)
  from Suc.hyps(2) have n: "n = nat (M + 1 - (k + 1))" by simp
  show ?case
  proof (cases "k' = k")
    case True
    have "match_read m' i k = match_read m1 i k"
      by (rule changes_withinD[OF zero_row_changes[OF z]]) simp
    then show ?thesis using match_read_match_write[OF w, of i k] True by simp
  next
    case False
    with Suc.prems have "k + 1 \<le> k'" by simp
    from Suc.hyps(1)[OF n z this \<open>k' \<le> M\<close>] show ?thesis .
  qed
qed

lemma score_row_cells:
  assumes "score_row p r i k M (m, s) = Some (m', s')" "k \<le> k'" "k' \<le> M"
  shows "\<exists>ms prev. match_score p k' (uint r) = Some ms \<and>
           match_read m (i - 1) (k' - 1) = Some prev \<and>
           match_read m' i k' = Some (dp_step prev ms)"
  using assms
proof (induction "nat (M + 1 - k)" arbitrary: k m s)
  case 0
  then show ?case by simp
next
  case (Suc n)
  then have le: "k \<le> M" by simp
  with Suc.prems obtain ms prev m1 where
    ms: "match_score p k (uint r) = Some ms" and prev: "match_read m (i - 1) (k - 1) = Some prev"
    and w: "match_write m i k (dp_step prev ms) = Some m1"
    and z: "score_row p r i (k + 1) M (m1, track_max s (dp_step prev ms)) = Some (m', s')"
    by (auto simp: score_row.simps[of p r i k] Let_def split: bind_splits)
  from Suc.hyps(2) have n: "n = nat (M + 1 - (k + 1))" by simp
  show ?case
  proof (cases "k' = k")
    case True
    have "match_read m' i k = match_read m1 i k"
      by (rule changes_withinD[OF score_row_changes[OF z]]) simp
    then have "match_read m' i k = Some (dp_step prev ms)"
      using match_read_match_write[OF w, of i k] by simp
    with ms prev True show ?thesis by simp
  next
    case False
    with Suc.prems have "k + 1 \<le> k'" by simp
    from Suc.hyps(1)[OF n z this \<open>k' \<le> M\<close>] obtain ms' prev' where
      *: "match_score p k' (uint r) = Some ms'" "match_read m1 (i - 1) (k' - 1) = Some prev'"
         "match_read m' i k' = Some (dp_step prev' ms')" by blast
    have "match_read m1 (i - 1) (k' - 1) = match_read m (i - 1) (k' - 1)"
      using match_read_match_write[OF w, of "i - 1" "k' - 1"] by simp
    with * show ?thesis by simp
  qed
qed

lemma track_max_cases: "track_max s v = s \<or> track_max s v = v"
  by (simp add: track_max_def)

lemma track_max_ge_left: "s \<noteq> NaN \<Longrightarrow> v \<noteq> NaN \<Longrightarrow> fle s (track_max s v)"
  by (cases s; cases v) (auto simp: track_max_def fle_def)

lemma track_max_ge_right: "s \<noteq> NaN \<Longrightarrow> v \<noteq> NaN \<Longrightarrow> fle v (track_max s v)"
  by (cases s; cases v) (auto simp: track_max_def fle_def)

lemma track_max_not_NaN: "s \<noteq> NaN \<Longrightarrow> v \<noteq> NaN \<Longrightarrow> track_max s v \<noteq> NaN"
  by (simp add: track_max_def)

lemma score_row_score:
  assumes "score_row p r i k M (m, s) = Some (m', s')" "s \<noteq> NaN"
  shows "fle s s' \<and>
         (\<forall>k'. k \<le> k' \<and> k' \<le> M \<longrightarrow> (\<exists>v. match_read m' i k' = Some v \<and> fle v s')) \<and>
         (s' = s \<or> (\<exists>k'. k \<le> k' \<and> k' \<le> M \<and> match_read m' i k' = Some s'))"
  using assms
proof (induction "nat (M + 1 - k)" arbitrary: k m s)
  case 0
  then have "\<not> k \<le> M" by simp
  with "0.prems" show ?case by (auto simp: score_row.simps[of p r i k])
next
  case (Suc n)
  then have le: "k \<le> M" by simp
  with Suc.prems obtain ms prev m1 where
    w: "match_write m i k (dp_step prev ms) = Some m1"
    and z: "score_row p r i (k + 1) M (m1, track_max s (dp_step prev ms)) = Some (m', s')"
    by (auto simp: score_row.simps[of p r i k] Let_def split: bind_splits)
  let ?v = "dp_step prev ms" and ?s1 = "track_max s (dp_step prev ms)"
  from Suc.hyps(2) have n: "n = nat (M + 1 - (k + 1))" by simp
  have s1: "?s1 \<noteq> NaN" using Suc.prems(2) by (simp add: track_max_not_NaN)
  from Suc.hyps(1)[OF n z s1] have IH: "fle ?s1 s'"
    "\<And>k'. k + 1 \<le> k' \<Longrightarrow> k' \<le> M \<Longrightarrow> \<exists>v. match_read m' i k' = Some v \<and> fle v s'"
    "s' = ?s1 \<or> (\<exists>k'. k + 1 \<le> k' \<and> k' \<le> M \<and> match_read m' i k' = Some s')"
    by blast+
  have here: "match_read m' i k = Some ?v"
  proof -
    have "match_read m' i k = match_read m1 i k"
      by (rule changes_withinD[OF score_row_changes[OF z]]) simp
    then show ?thesis using match_read_match_write[OF w, of i k] by simp
  qed
  have a: "fle s s'"
    using track_max_ge_left[of s ?v] Suc.prems(2) IH(1) by (auto intro: fle_trans)
  have b: "\<exists>v. match_read m' i k' = Some v \<and> fle v s'" if "k \<le> k'" "k' \<le> M" for k'
  proof (cases "k' = k")
    case True
    have "fle ?v s'" using track_max_ge_right[of s ?v] Suc.prems(2) IH(1) by (auto intro: fle_trans)
    with here True show ?thesis by simp
  next
    case False
    with that have "k + 1 \<le> k'" by simp
    from IH(2)[OF this that(2)] show ?thesis .
  qed
  have c: "s' = s \<or> (\<exists>k'. k \<le> k' \<and> k' \<le> M \<and> match_read m' i k' = Some s')"
  proof -
    from IH(3) show ?thesis
    proof
      assume eq: "s' = ?s1"
      from track_max_cases[of s ?v] show ?thesis
      proof
        assume "?s1 = s" with eq show ?thesis by simp
      next
        assume "?s1 = ?v"
        with eq here le show ?thesis by (intro disjI2 exI[of _ k]) simp
      qed
    next
      assume "\<exists>k'. k + 1 \<le> k' \<and> k' \<le> M \<and> match_read m' i k' = Some s'"
      then obtain k' where "k + 1 \<le> k'" "k' \<le> M" "match_read m' i k' = Some s'" by blast
      then show ?thesis by (intro disjI2 exI[of _ k']) simp
    qed
  qed
  from a b c show ?case by blast
qed

lemma fle_reflD: "fle a b \<Longrightarrow> fle b b"
  by (cases a; cases b) (auto simp: fle_def)

lemma fill_rows_cells:
  assumes "fill_rows p i L M (S, m, s) = Some (S', m', s')" "i \<le> i'" "i' \<le> L"
  shows "recurrence_row p S m' M i'"
  using assms
proof (induction "nat (L + 1 - i)" arbitrary: i m s)
  case 0
  then show ?case by simp
next
  case (Suc n)
  then have le: "i \<le> L" by simp
  from Suc.hyps(2) have n: "n = nat (L + 1 - (i + 1))" by simp
  from Suc.prems le obtain r where r: "vec_read S i = Some r"
    by (auto simp: fill_rows.simps[of p i] split: bind_splits)
  show ?case
  proof (cases "20 \<le> uint r")
    case True
    with Suc.prems le r obtain m1 where z: "zero_row i 1 M m = Some m1"
      and f: "fill_rows p (i + 1) L M (S, m1, s) = Some (S', m', s')"
      by (auto simp: fill_rows.simps[of p i] split: bind_splits)
    show ?thesis
    proof (cases "i' = i")
      case False
      with Suc.prems have "i + 1 \<le> i'" by simp
      from Suc.hyps(1)[OF n f this \<open>i' \<le> L\<close>] show ?thesis .
    next
      case i: True
      have "match_read m' i k = Some (Fin 0)" if "1 \<le> k" "k \<le> M" for k
      proof -
        have "match_read m' i k = match_read m1 i k"
          using fill_rows_changes[OF f] by (intro changes_withinD[where ?i1.0 = "i + 1"]) auto
        then show ?thesis using zero_row_cells[OF z that] by simp
      qed
      then show ?thesis using r True i by (simp add: recurrence_row_def)
    qed
  next
    case False
    with Suc.prems le r obtain m1 s1 where z: "score_row p r i 1 M (m, s) = Some (m1, s1)"
      and f: "fill_rows p (i + 1) L M (S, m1, s1) = Some (S', m', s')"
      by (auto simp: fill_rows.simps[of p i] split: bind_splits)
    show ?thesis
    proof (cases "i' = i")
      case ne: False
      with Suc.prems have "i + 1 \<le> i'" by simp
      from Suc.hyps(1)[OF n f this \<open>i' \<le> L\<close>] show ?thesis .
    next
      case i: True
      have "\<exists>ms prev. match_score p k (uint r) = Some ms \<and> match_read m' (i - 1) (k - 1) = Some prev
              \<and> match_read m' i k = Some (dp_step prev ms)" if "1 \<le> k" "k \<le> M" for k
      proof -
        from score_row_cells[OF z that] obtain ms prev where
          *: "match_score p k (uint r) = Some ms" "match_read m (i - 1) (k - 1) = Some prev"
             "match_read m1 i k = Some (dp_step prev ms)" by blast
        have a: "match_read m' i k = match_read m1 i k"
          using fill_rows_changes[OF f] by (intro changes_withinD[where ?i1.0 = "i + 1"]) auto
        have b: "match_read m1 (i - 1) (k - 1) = match_read m (i - 1) (k - 1)"
          using score_row_changes[OF z] by (intro changes_withinD[where ?i1.0 = i]) auto
        have c: "match_read m' (i - 1) (k - 1) = match_read m1 (i - 1) (k - 1)"
          using fill_rows_changes[OF f] by (intro changes_withinD[where ?i1.0 = "i + 1"]) auto
        from * a b c show ?thesis by simp
      qed
      then show ?thesis using r False i by (fastforce simp: recurrence_row_def)
    qed
  qed
qed

lemma fill_rows_score:
  assumes "fill_rows p i L M (S, m, s) = Some (S', m', s')" "fle (Fin 0) s"
  shows "fle s s' \<and>
         (\<forall>i' k. i \<le> i' \<and> i' \<le> L \<and> 1 \<le> k \<and> k \<le> M \<longrightarrow> (\<exists>v. match_read m' i' k = Some v \<and> fle v s')) \<and>
         (s' = s \<or> (\<exists>i' k. i \<le> i' \<and> i' \<le> L \<and> 1 \<le> k \<and> k \<le> M \<and> match_read m' i' k = Some s'))"
  using assms
proof (induction "nat (L + 1 - i)" arbitrary: i m s)
  case 0
  then have "\<not> i \<le> L" by simp
  with "0.prems" show ?case by (auto simp: fill_rows.simps[of p i] dest: fle_reflD)
next
  case (Suc n)
  then have le: "i \<le> L" by simp
  from Suc.hyps(2) have n: "n = nat (L + 1 - (i + 1))" by simp
  from Suc.prems le obtain r where r: "vec_read S i = Some r"
    by (auto simp: fill_rows.simps[of p i] split: bind_splits)
  have sN: "s \<noteq> NaN" using Suc.prems(2) by auto
  obtain m1 s1 where f: "fill_rows p (i + 1) L M (S, m1, s1) = Some (S', m', s')"
    and s1: "fle s s1"
    and row: "\<And>k. 1 \<le> k \<Longrightarrow> k \<le> M \<Longrightarrow> \<exists>v. match_read m1 i k = Some v \<and> fle v s1"
    and att: "s1 = s \<or> (\<exists>k. 1 \<le> k \<and> k \<le> M \<and> match_read m1 i k = Some s1)"
  proof (cases "20 \<le> uint r")
    case True
    with Suc.prems le r obtain m1 where z: "zero_row i 1 M m = Some m1"
      and f: "fill_rows p (i + 1) L M (S, m1, s) = Some (S', m', s')"
      by (auto simp: fill_rows.simps[of p i] split: bind_splits)
    show ?thesis
    proof (rule that[OF f])
      show "fle s s" using sN by simp
      show "\<exists>v. match_read m1 i k = Some v \<and> fle v s" if "1 \<le> k" "k \<le> M" for k
        using zero_row_cells[OF z that] Suc.prems(2) by simp
      show "s = s \<or> (\<exists>k. 1 \<le> k \<and> k \<le> M \<and> match_read m1 i k = Some s)" by simp
    qed
  next
    case False
    with Suc.prems le r obtain m1 s1 where z: "score_row p r i 1 M (m, s) = Some (m1, s1)"
      and f: "fill_rows p (i + 1) L M (S, m1, s1) = Some (S', m', s')"
      by (auto simp: fill_rows.simps[of p i] split: bind_splits)
    from score_row_score[OF z sN] show ?thesis by (intro that[OF f]) blast+
  qed
  have s1_0: "fle (Fin 0) s1" using Suc.prems(2) s1 by (rule fle_trans)
  from Suc.hyps(1)[OF n f s1_0] have IH: "fle s1 s'"
    "\<And>i' k. i + 1 \<le> i' \<Longrightarrow> i' \<le> L \<Longrightarrow> 1 \<le> k \<Longrightarrow> k \<le> M \<Longrightarrow> \<exists>v. match_read m' i' k = Some v \<and> fle v s'"
    "s' = s1 \<or> (\<exists>i' k. i + 1 \<le> i' \<and> i' \<le> L \<and> 1 \<le> k \<and> k \<le> M \<and> match_read m' i' k = Some s')"
    by blast+
  have keep: "match_read m' i k = match_read m1 i k" for k
    using fill_rows_changes[OF f] by (intro changes_withinD[where ?i1.0 = "i + 1"]) auto
  have a: "fle s s'" using s1 IH(1) by (rule fle_trans)
  have b: "\<exists>v. match_read m' i' k = Some v \<and> fle v s'" if "i \<le> i'" "i' \<le> L" "1 \<le> k" "k \<le> M" for i' k
  proof (cases "i' = i")
    case True
    from row[OF that(3,4)] obtain v where "match_read m1 i k = Some v" "fle v s1" by blast
    with keep[of k] IH(1) True show ?thesis by (auto intro: fle_trans)
  next
    case False
    with that have "i + 1 \<le> i'" by simp
    from IH(2)[OF this that(2-)] show ?thesis .
  qed
  have c: "s' = s \<or> (\<exists>i' k. i \<le> i' \<and> i' \<le> L \<and> 1 \<le> k \<and> k \<le> M \<and> match_read m' i' k = Some s')"
  proof -
    from IH(3) show ?thesis
    proof
      assume eq: "s' = s1"
      from att show ?thesis
      proof
        assume "s1 = s" with eq show ?thesis by simp
      next
        assume "\<exists>k. 1 \<le> k \<and> k \<le> M \<and> match_read m1 i k = Some s1"
        then obtain k where "1 \<le> k" "k \<le> M" "match_read m1 i k = Some s1" by blast
        with eq keep[of k] le show ?thesis by (intro disjI2 exI[of _ i] exI[of _ k]) simp
      qed
    next
      assume "\<exists>i' k. i + 1 \<le> i' \<and> i' \<le> L \<and> 1 \<le> k \<and> k \<le> M \<and> match_read m' i' k = Some s'"
      then obtain i' k where "i + 1 \<le> i'" "i' \<le> L" "1 \<le> k" "k \<le> M" "match_read m' i' k = Some s'"
        by blast
      then show ?thesis by (intro disjI2 exI[of _ i'] exI[of _ k]) simp
    qed
  qed
  from a b c show ?case by blast
qed

section \<open>The whole call\<close>

lemma compute_msv_loops:
  assumes "compute_msv S L p m e = Some (score, S', m')" "0 < L" "0 < model_length p"
  obtains m0 where "zero_row 0 0 (model_length p) m = Some m0"
    and "fill_rows p 1 L (model_length p) (S, m0, Fin 0) = Some (S', m', score)"
  using assms by (auto simp: compute_msv_def Let_def split: bind_splits)

lemma compute_msv_sequence:
  assumes "compute_msv S L p m e = Some (score, S', m')"
  shows "S' = S"
proof (cases "0 < L \<and> 0 < model_length p")
  case True
  with assms obtain m0 where "fill_rows p 1 L (model_length p) (S, m0, Fin 0) = Some (S', m', score)"
    by (auto elim: compute_msv_loops)
  from fill_rows_changes[OF this] show ?thesis by simp
next
  case False
  with assms show ?thesis by (auto simp: compute_msv_def)
qed

lemma compute_msv_changes:
  assumes "compute_msv S L p m e = Some (score, S', m')"
  shows "xmx m' = xmx m"
    and "cell_read m' i j \<noteq> cell_read m i j \<Longrightarrow>
           \<exists>k. j = k * p7G_NSCELLS + p7G_M \<and>
               (i = 0 \<and> 0 \<le> k \<and> k \<le> model_length p \<or> 1 \<le> i \<and> i \<le> L \<and> 1 \<le> k \<and> k \<le> model_length p)"
proof -
  let ?M = "model_length p"
  have "xmx m' = xmx m \<and> (cell_read m' i j \<noteq> cell_read m i j \<longrightarrow>
           (\<exists>k. j = k * p7G_NSCELLS + p7G_M \<and>
               (i = 0 \<and> 0 \<le> k \<and> k \<le> ?M \<or> 1 \<le> i \<and> i \<le> L \<and> 1 \<le> k \<and> k \<le> ?M)))"
  proof (cases "0 < L \<and> 0 < ?M")
    case False
    with assms show ?thesis by (auto simp: compute_msv_def)
  next
    case True
    with assms obtain m0 where z: "zero_row 0 0 ?M m = Some m0"
      and f: "fill_rows p 1 L ?M (S, m0, Fin 0) = Some (S', m', score)"
      by (auto elim: compute_msv_loops)
    note a = zero_row_changes[OF z] and b = fill_rows_changes[OF f, THEN conjunct2]
    have x: "xmx m' = xmx m" using a b by (simp add: changes_within_def)
    have "\<exists>k. j = k * p7G_NSCELLS + p7G_M \<and>
               (i = 0 \<and> 0 \<le> k \<and> k \<le> ?M \<or> 1 \<le> i \<and> i \<le> L \<and> 1 \<le> k \<and> k \<le> ?M)"
      if ne: "cell_read m' i j \<noteq> cell_read m i j"
    proof (cases "cell_read m' i j = cell_read m0 i j")
      case True
      with ne have "cell_read m0 i j \<noteq> cell_read m i j" by simp
      with a obtain k where "0 \<le> i" "i \<le> 0" "0 \<le> k" "k \<le> ?M" "j = k * p7G_NSCELLS + p7G_M"
        unfolding changes_within_def by blast
      then show ?thesis by (intro exI[of _ k]) auto
    next
      case False
      with b obtain k where "1 \<le> i" "i \<le> L" "1 \<le> k" "k \<le> ?M" "j = k * p7G_NSCELLS + p7G_M"
        unfolding changes_within_def by blast
      then show ?thesis by (intro exI[of _ k]) auto
    qed
    with x show ?thesis by blast
  qed
  then show "xmx m' = xmx m"
    and "cell_read m' i j \<noteq> cell_read m i j \<Longrightarrow>
           \<exists>k. j = k * p7G_NSCELLS + p7G_M \<and>
               (i = 0 \<and> 0 \<le> k \<and> k \<le> ?M \<or> 1 \<le> i \<and> i \<le> L \<and> 1 \<le> k \<and> k \<le> ?M)"
    by blast+
qed

lemma compute_msv_row0:
  assumes "compute_msv S L p m e = Some (score, S', m')" "0 < L" "0 < model_length p"
    and "0 \<le> k" "k \<le> model_length p"
  shows "match_read m' 0 k = Some (Fin 0)"
proof -
  from assms(1-3) obtain m0 where z: "zero_row 0 0 (model_length p) m = Some m0"
    and f: "fill_rows p 1 L (model_length p) (S, m0, Fin 0) = Some (S', m', score)"
    by (rule compute_msv_loops)
  have "match_read m' 0 k = match_read m0 0 k"
    using fill_rows_changes[OF f] by (intro changes_withinD[where ?i1.0 = 1]) auto
  with zero_row_cells[OF z assms(4,5)] show ?thesis by simp
qed

lemma compute_msv_rows:
  assumes "compute_msv S L p m e = Some (score, S', m')" "0 < L" "0 < model_length p"
    and "1 \<le> i" "i \<le> L"
  shows "recurrence_row p S m' (model_length p) i"
proof -
  from assms(1-3) obtain m0 where
    f: "fill_rows p 1 L (model_length p) (S, m0, Fin 0) = Some (S', m', score)"
    by (rule compute_msv_loops)
  from fill_rows_cells[OF f assms(4,5)] show ?thesis .
qed

lemma compute_msv_score:
  assumes "compute_msv S L p m e = Some (score, S', m')" "0 < L" "0 < model_length p"
  shows "fle (Fin 0) score"
    and "1 \<le> i \<Longrightarrow> i \<le> L \<Longrightarrow> 1 \<le> k \<Longrightarrow> k \<le> model_length p \<Longrightarrow>
           \<exists>v. match_read m' i k = Some v \<and> fle v score"
    and "score = Fin 0 \<or>
           (\<exists>i k. 1 \<le> i \<and> i \<le> L \<and> 1 \<le> k \<and> k \<le> model_length p \<and> match_read m' i k = Some score)"
proof -
  from assms(1-3) obtain m0 where
    f: "fill_rows p 1 L (model_length p) (S, m0, Fin 0) = Some (S', m', score)"
    by (rule compute_msv_loops)
  have "fle (Fin 0) (Fin 0)" by simp
  note * = fill_rows_score[OF f this]
  from * show "fle (Fin 0) score" by blast
  from * show "1 \<le> i \<Longrightarrow> i \<le> L \<Longrightarrow> 1 \<le> k \<Longrightarrow> k \<le> model_length p \<Longrightarrow>
           \<exists>v. match_read m' i k = Some v \<and> fle v score" by blast
  from * show "score = Fin 0 \<or>
           (\<exists>i k. 1 \<le> i \<and> i \<le> L \<and> 1 \<le> k \<and> k \<le> model_length p \<and> match_read m' i k = Some score)"
    by blast
qed

lemma compute_msv_column0:
  assumes "compute_msv S L p m e = Some (score, S', m')" "1 \<le> i"
  shows "match_read m' i 0 = match_read m i 0"
proof -
  have "cell_read m' i (0 * p7G_NSCELLS + p7G_M) = cell_read m i (0 * p7G_NSCELLS + p7G_M)"
  proof (rule ccontr)
    assume "\<not> ?thesis"
    from compute_msv_changes(2)[OF assms(1) this] assms(2) show False by (auto simp: hmmer_consts)
  qed
  then show ?thesis by (simp add: match_read_def)
qed

lemma compute_msv_cell:
  assumes run: "compute_msv S L p m e = Some (score, S', m')"
    and ik: "1 \<le> i" "i \<le> L" "1 \<le> k" "k \<le> model_length p"
  obtains r where "vec_read S i = Some r" "20 \<le> uint r" "match_read m' i k = Some (Fin 0)"
  | r ms prev where "vec_read S i = Some r" "uint r < 20" "match_score p k (uint r) = Some ms"
      "match_read m' (i - 1) (k - 1) = Some prev" "match_read m' i k = Some (dp_step prev ms)"
proof -
  from ik have "0 < L" "0 < model_length p" by simp_all
  from compute_msv_rows[OF run this ik(1,2)] have rr: "recurrence_row p S m' (model_length p) i" .
  then obtain r where r: "vec_read S i = Some r"
    by (auto simp: recurrence_row_def split: option.splits)
  show ?thesis
  proof (cases "20 \<le> uint r")
    case True
    with rr r ik have "match_read m' i k = Some (Fin 0)" by (auto simp: recurrence_row_def)
    with r True show ?thesis by (rule that(1))
  next
    case False
    with rr r ik obtain ms prev where
      "match_score p k (uint r) = Some ms" "match_read m' (i - 1) (k - 1) = Some prev"
      "match_read m' i k = Some (dp_step prev ms)"
      by (fastforce simp: recurrence_row_def split: option.splits)
    with r False show ?thesis by (intro that(2)[of r ms prev]) auto
  qed
qed

lemma compute_msv_cells_nonneg:
  assumes "compute_msv S L p m e = Some (score, S', m')"
    and "1 \<le> i" "i \<le> L" "1 \<le> k" "k \<le> model_length p"
  shows "\<exists>v. match_read m' i k = Some v \<and> fle (Fin 0) v"
  by (rule compute_msv_cell[OF assms]) (auto simp: dp_step_nonneg)

section \<open>When the call returns\<close>

lemma match_write_keeps_cells:
  assumes "match_write m i k v = Some m'"
  shows "match_read m' a b = None \<longleftrightarrow> match_read m a b = None"
  using match_read_match_write[OF assms, of a b] match_write_None_iff[of m i k v] assms
  by (auto split: if_splits)

lemma zero_row_keeps_cells:
  assumes "zero_row i k M m = Some m'"
  shows "match_read m' a b = None \<longleftrightarrow> match_read m a b = None"
  using assms
proof (induction "nat (M + 1 - k)" arbitrary: k m)
  case 0
  then have "\<not> k \<le> M" by simp
  with "0.prems" show ?case by (simp add: zero_row.simps[of i k])
next
  case (Suc n)
  then have le: "k \<le> M" by simp
  with Suc.prems obtain m1 where w: "match_write m i k (Fin 0) = Some m1"
    and z: "zero_row i (k + 1) M m1 = Some m'"
    by (auto simp: zero_row.simps[of i k] split: bind_splits)
  from Suc.hyps(2) have n: "n = nat (M + 1 - (k + 1))" by simp
  from Suc.hyps(1)[OF n z] match_write_keeps_cells[OF w] show ?case by simp
qed

lemma score_row_keeps_cells:
  assumes "score_row p r i k M (m, s) = Some (m', s')"
  shows "match_read m' a b = None \<longleftrightarrow> match_read m a b = None"
  using assms
proof (induction "nat (M + 1 - k)" arbitrary: k m s)
  case 0
  then have "\<not> k \<le> M" by simp
  with "0.prems" show ?case by (simp add: score_row.simps[of p r i k])
next
  case (Suc n)
  then have le: "k \<le> M" by simp
  with Suc.prems obtain ms prev m1 where
    w: "match_write m i k (dp_step prev ms) = Some m1"
    and z: "score_row p r i (k + 1) M (m1, track_max s (dp_step prev ms)) = Some (m', s')"
    by (auto simp: score_row.simps[of p r i k] Let_def split: bind_splits)
  from Suc.hyps(2) have n: "n = nat (M + 1 - (k + 1))" by simp
  from Suc.hyps(1)[OF n z] match_write_keeps_cells[OF w] show ?case by simp
qed

lemma zero_row_returns:
  assumes "\<And>k'. k \<le> k' \<Longrightarrow> k' \<le> M \<Longrightarrow> match_read m i k' \<noteq> None"
  shows "zero_row i k M m \<noteq> None"
  using assms
proof (induction "nat (M + 1 - k)" arbitrary: k m)
  case 0
  then have "\<not> k \<le> M" by simp
  then show ?case by (simp add: zero_row.simps[of i k])
next
  case (Suc n)
  then have le: "k \<le> M" by simp
  from Suc.hyps(2) have n: "n = nat (M + 1 - (k + 1))" by simp
  from Suc.prems[of k] le obtain m1 where w: "match_write m i k (Fin 0) = Some m1"
    using match_write_None_iff[of m i k "Fin 0"] by auto
  have "zero_row i (k + 1) M m1 \<noteq> None"
  proof (rule Suc.hyps(1)[OF n])
    fix k' assume "k + 1 \<le> k'" "k' \<le> M"
    then show "match_read m1 i k' \<noteq> None"
      using Suc.prems[of k'] match_write_keeps_cells[OF w, of i k'] by simp
  qed
  then show ?case using le w by (simp add: zero_row.simps[of i k])
qed

lemma score_row_returns:
  assumes "\<And>k'. k \<le> k' \<Longrightarrow> k' \<le> M \<Longrightarrow> match_read m i k' \<noteq> None"
    and "\<And>k'. k \<le> k' \<Longrightarrow> k' \<le> M \<Longrightarrow> match_read m (i - 1) (k' - 1) \<noteq> None"
    and "\<And>k'. k \<le> k' \<Longrightarrow> k' \<le> M \<Longrightarrow> match_score p k' (uint r) \<noteq> None"
  shows "score_row p r i k M (m, s) \<noteq> None"
  using assms
proof (induction "nat (M + 1 - k)" arbitrary: k m s)
  case 0
  then have "\<not> k \<le> M" by simp
  then show ?case by (simp add: score_row.simps[of p r i k])
next
  case (Suc n)
  then have le: "k \<le> M" by simp
  from Suc.hyps(2) have n: "n = nat (M + 1 - (k + 1))" by simp
  from Suc.prems(3)[of k] le obtain ms where ms: "match_score p k (uint r) = Some ms" by auto
  from Suc.prems(2)[of k] le obtain prev where prev: "match_read m (i - 1) (k - 1) = Some prev" by auto
  from Suc.prems(1)[of k] le obtain m1 where w: "match_write m i k (dp_step prev ms) = Some m1"
    using match_write_None_iff[of m i k "dp_step prev ms"] by auto
  have "score_row p r i (k + 1) M (m1, track_max s (dp_step prev ms)) \<noteq> None"
  proof (rule Suc.hyps(1)[OF n])
    fix k' assume k': "k + 1 \<le> k'" "k' \<le> M"
    then show "match_read m1 i k' \<noteq> None"
      using Suc.prems(1)[of k'] match_write_keeps_cells[OF w, of i k'] by simp
    from k' show "match_read m1 (i - 1) (k' - 1) \<noteq> None"
      using Suc.prems(2)[of k'] match_write_keeps_cells[OF w, of "i - 1" "k' - 1"] by simp
    from k' show "match_score p k' (uint r) \<noteq> None" using Suc.prems(3)[of k'] by simp
  qed
  then show ?case using le ms prev w by (simp add: score_row.simps[of p r i k] Let_def)
qed

lemma fill_rows_returns:
  assumes "\<And>i' k. i - 1 \<le> i' \<Longrightarrow> i' \<le> L \<Longrightarrow> 0 \<le> k \<Longrightarrow> k \<le> M \<Longrightarrow> match_read m i' k \<noteq> None"
    and "\<And>i'. i \<le> i' \<Longrightarrow> i' \<le> L \<Longrightarrow>
           \<exists>r. vec_read S i' = Some r \<and> (uint r < 20 \<longrightarrow> (\<forall>k. 1 \<le> k \<and> k \<le> M \<longrightarrow> match_score p k (uint r) \<noteq> None))"
  shows "fill_rows p i L M (S, m, s) \<noteq> None"
  using assms
proof (induction "nat (L + 1 - i)" arbitrary: i m s)
  case 0
  then have "\<not> i \<le> L" by simp
  then show ?case by (simp add: fill_rows.simps[of p i])
next
  case (Suc n)
  then have le: "i \<le> L" by simp
  from Suc.hyps(2) have n: "n = nat (L + 1 - (i + 1))" by simp
  from Suc.prems(2)[of i] le obtain r where r: "vec_read S i = Some r"
    and sc: "uint r < 20 \<Longrightarrow> 1 \<le> k \<Longrightarrow> k \<le> M \<Longrightarrow> match_score p k (uint r) \<noteq> None" for k
    by auto
  show ?case
  proof (cases "20 \<le> uint r")
    case True
    have "zero_row i 1 M m \<noteq> None"
      using Suc.prems(1)[of i] le by (intro zero_row_returns) auto
    then obtain m1 where z: "zero_row i 1 M m = Some m1" by auto
    have "fill_rows p (i + 1) L M (S, m1, s) \<noteq> None"
    proof (rule Suc.hyps(1)[OF n])
      fix i' k assume "i + 1 - 1 \<le> i'" "i' \<le> L" "0 \<le> k" "k \<le> M"
      then show "match_read m1 i' k \<noteq> None"
        using Suc.prems(1)[of i' k] zero_row_keeps_cells[OF z, of i' k] by simp
    next
      fix i' assume "i + 1 \<le> i'" "i' \<le> L"
      then show "\<exists>r. vec_read S i' = Some r \<and> (uint r < 20 \<longrightarrow> (\<forall>k. 1 \<le> k \<and> k \<le> M \<longrightarrow> match_score p k (uint r) \<noteq> None))"
        using Suc.prems(2)[of i'] by simp
    qed
    then show ?thesis using le r True z by (simp add: fill_rows.simps[of p i])
  next
    case False
    have "score_row p r i 1 M (m, s) \<noteq> None"
    proof (rule score_row_returns)
      fix k' assume k': "1 \<le> k'" "k' \<le> M"
      then show "match_read m i k' \<noteq> None" using Suc.prems(1)[of i k'] le by simp
      from k' show "match_read m (i - 1) (k' - 1) \<noteq> None" using Suc.prems(1)[of "i - 1" "k' - 1"] le by simp
      from k' show "match_score p k' (uint r) \<noteq> None" using sc[of k'] False by simp
    qed
    then obtain m1 s1 where z: "score_row p r i 1 M (m, s) = Some (m1, s1)" by auto
    have "fill_rows p (i + 1) L M (S, m1, s1) \<noteq> None"
    proof (rule Suc.hyps(1)[OF n])
      fix i' k assume "i + 1 - 1 \<le> i'" "i' \<le> L" "0 \<le> k" "k \<le> M"
      then show "match_read m1 i' k \<noteq> None"
        using Suc.prems(1)[of i' k] score_row_keeps_cells[OF z, of i' k] by simp
    next
      fix i' assume "i + 1 \<le> i'" "i' \<le> L"
      then show "\<exists>r. vec_read S i' = Some r \<and> (uint r < 20 \<longrightarrow> (\<forall>k. 1 \<le> k \<and> k \<le> M \<longrightarrow> match_score p k (uint r) \<noteq> None))"
        using Suc.prems(2)[of i'] by simp
    qed
    then show ?thesis using le r False z by (simp add: fill_rows.simps[of p i])
  qed
qed

lemma compute_msv_returns:
  assumes "\<And>i k. 0 \<le> i \<Longrightarrow> i \<le> L \<Longrightarrow> 0 \<le> k \<Longrightarrow> k \<le> model_length p \<Longrightarrow> match_read m i k \<noteq> None"
    and "\<And>i. 1 \<le> i \<Longrightarrow> i \<le> L \<Longrightarrow>
           \<exists>r. vec_read S i = Some r \<and>
               (uint r < 20 \<longrightarrow> (\<forall>k. 1 \<le> k \<and> k \<le> model_length p \<longrightarrow> match_score p k (uint r) \<noteq> None))"
  shows "compute_msv S L p m e \<noteq> None"
proof (cases "0 < L \<and> 0 < model_length p")
  case False
  then show ?thesis by (auto simp: compute_msv_def)
next
  case True
  let ?M = "model_length p"
  have "zero_row 0 0 ?M m \<noteq> None"
    using assms(1)[of 0] True by (intro zero_row_returns) auto
  then obtain m0 where z: "zero_row 0 0 ?M m = Some m0" by auto
  have "fill_rows p 1 L ?M (S, m0, Fin 0) \<noteq> None"
  proof (rule fill_rows_returns)
    fix i' k assume "1 - 1 \<le> i'" "i' \<le> L" "0 \<le> k" "k \<le> ?M"
    then show "match_read m0 i' k \<noteq> None"
      using assms(1)[of i' k] zero_row_keeps_cells[OF z, of i' k] by simp
  next
    fix i' assume "1 \<le> i'" "i' \<le> L"
    then show "\<exists>r. vec_read S i' = Some r \<and> (uint r < 20 \<longrightarrow> (\<forall>k. 1 \<le> k \<and> k \<le> ?M \<longrightarrow> match_score p k (uint r) \<noteq> None))"
      using assms(2)[of i'] by simp
  qed
  then show ?thesis using True z by (auto simp: compute_msv_def Let_def)
qed

section \<open>The matrix constructor\<close>

lemma int32_id: "- 2147483648 \<le> x \<Longrightarrow> x \<le> 2147483647 \<Longrightarrow> int32 x = x"
  by (simp add: int32_def)

lemma row_width:
  assumes "0 \<le> M" "M \<le> 715827881"
  shows "int32 (int32 (M + 1) * p7G_NSCELLS) = (M + 1) * p7G_NSCELLS"
  using assms by (simp add: int32_id p7G_NSCELLS_def)

lemma DPMatrix_rows_fresh:
  assumes "0 \<le> i" "i \<le> L + 1" "L < 2147483647" "0 \<le> M" "M \<le> 715827881"
  shows "DPMatrix_rows i L M
           (replicate (nat i) (replicate (nat ((M + 1) * p7G_NSCELLS)) NInf) @ replicate (nat (L + 1 - i)) [])
         = Some (replicate (nat (L + 1)) (replicate (nat ((M + 1) * p7G_NSCELLS)) NInf))"
  using assms(1,2)
proof (induction "nat (L + 1 - i)" arbitrary: i)
  case 0
  then have "i = L + 1" by simp
  then show ?case by (simp add: DPMatrix_rows.simps[of "L + 1"])
next
  case (Suc n)
  let ?full = "replicate (nat ((M + 1) * p7G_NSCELLS)) NInf"
  let ?d = "replicate (nat i) ?full @ replicate (nat (L + 1 - i)) []"
  from Suc.hyps(2) have le: "i \<le> L" and n: "n = nat (L + 1 - (i + 1))" by linarith+
  have next_i: "int32 (i + 1) = i + 1"
    using Suc.prems le assms(3) by (intro int32_id) auto
  have len: "nat (L + 1 - i) = Suc (nat (L - i))" using le by simp
  have rd: "vec_read ?d i = Some []"
    using Suc.prems le by (simp add: vec_read_def nth_append)
  have rs: "vec_resize [] (int32 (int32 (M + 1) * p7G_NSCELLS)) NInf = Some ?full"
    unfolding row_width[OF assms(4,5)] using assms(4) by (simp add: vec_resize_def p7G_NSCELLS_def)
  have wr: "vec_write ?d i ?full
            = Some (replicate (nat (i + 1)) ?full @ replicate (nat (L + 1 - (i + 1))) [])"
  proof -
    have "?d[nat i := ?full] = replicate (nat i) ?full @ (?full # replicate (nat (L - i)) [])"
      by (simp add: len list_update_append)
    also have "\<dots> = replicate (Suc (nat i)) ?full @ replicate (nat (L - i)) []"
      by (simp add: replicate_append_same)
    finally show ?thesis using Suc.prems le by (simp add: vec_write_def nat_add_distrib)
  qed
  have "DPMatrix_rows (i + 1) L M (replicate (nat (i + 1)) ?full @ replicate (nat (L + 1 - (i + 1))) [])
        = Some (replicate (nat (L + 1)) ?full)"
    using Suc.prems le by (intro Suc.hyps(1)[OF n]) auto
  then show ?case
    using le by (subst DPMatrix_rows.simps) (simp add: rd rs wr next_i)
qed

lemma DPMatrix_ctor_fresh:
  assumes "0 \<le> M" "M \<le> 715827881" "0 \<le> L" "L \<le> 429496728"
  shows "DPMatrix_ctor M L = Some \<lparr> model_length_mx = M, sequence_length_mx = L,
            allocR = L + 1, validR = L + 1, allocW = M + 1,
            dp = replicate (nat (L + 1)) (replicate (nat ((M + 1) * p7G_NSCELLS)) NInf),
            xmx = replicate (nat ((L + 1) * p7G_NXCELLS)) NInf \<rparr>"
proof -
  have "DPMatrix_rows 0 L M (replicate (nat (L + 1)) [])
        = Some (replicate (nat (L + 1)) (replicate (nat ((M + 1) * p7G_NSCELLS)) NInf))"
    using DPMatrix_rows_fresh[of 0 L M] assms by simp
  moreover have "int32 (L + 1) = L + 1" "int32 (M + 1) = M + 1"
    "int32 ((L + 1) * p7G_NXCELLS) = (L + 1) * p7G_NXCELLS"
    using assms by (simp_all add: int32_id p7G_NXCELLS_def)
  ultimately show ?thesis
    using assms by (simp add: DPMatrix_ctor_def vec_resize_def p7G_NXCELLS_def)
qed

lemma cell_read_fresh:
  "cell_read \<lparr> model_length_mx = a, sequence_length_mx = b, allocR = c, validR = d, allocW = e,
              dp = replicate n (replicate w v), xmx = x \<rparr> i j
   = (if 0 \<le> i \<and> i < int n \<and> 0 \<le> j \<and> j < int w then Some v else None)"
  by (auto simp: cell_read_def vec_read_def)

text \<open>
  C4, as the code has it: for \<open>0 \<le> M \<le> 715827881\<close> and \<open>0 \<le> L \<le> 429496728\<close>, the sizes
  for which \<^verbatim>\<open>(M + 1) * 3\<close> and \<^verbatim>\<open>(L + 1) * 5\<close> are below \<open>2^31\<close>, the constructor
  succeeds and fills every cell with negative infinity: the match, insert and delete
  cell of every row \<open>i\<close> in \<open>[0, L]\<close> and position \<open>k\<close> in \<open>[0, M]\<close>, row 0 and column 0
  included, and every special-state cell. No cell is initialized to 0.
\<close>

theorem DPMatrix_ctor_all_negative_infinity:
  assumes "0 \<le> M" "M \<le> 715827881" "0 \<le> L" "L \<le> 429496728"
  shows "\<exists>m. DPMatrix_ctor M L = Some m \<and>
           (\<forall>i\<in>{0..L}. \<forall>k\<in>{0..M}.
              match_read m i k = Some NInf \<and> insert_read m i k = Some NInf \<and>
              delete_state_read m i k = Some NInf) \<and>
           (\<forall>i\<in>{0..L}. \<forall>s\<in>{0..<p7G_NXCELLS}. special_read m i s = Some NInf)"
  unfolding DPMatrix_ctor_fresh[OF assms]
  by (auto simp: match_read_def insert_read_def delete_state_read_def special_read_def
        cell_read_fresh vec_read_replicate hmmer_consts)

theorem DPMatrix_ctor_all_negative_infinity_witness:
  "(0::int) \<le> 5 \<and> (5::int) \<le> 715827881 \<and> (5::int) \<le> 429496728 \<and>
   (\<exists>m. DPMatrix_ctor 5 5 = Some m \<and> match_read m 0 3 = Some NInf \<and>
     match_read m 2 0 = Some NInf \<and> insert_read m 4 4 = Some NInf \<and> special_read m 5 4 = Some NInf)"
  using DPMatrix_ctor_all_negative_infinity[of 5 5] by (auto simp: p7G_NXCELLS_def)

text \<open>
  C4 as stated fails: in the matrix that \<open>DPMatrix(1, 1)\<close> builds, the match cell of row 0
  and column 0 holds negative infinity, not 0.
\<close>

theorem DPMatrix_ctor_row0_counterexample:
  "DPMatrix_ctor 1 1 \<noteq> None \<and> match_read (the (DPMatrix_ctor 1 1)) 0 0 = Some NInf \<and>
   match_read (the (DPMatrix_ctor 1 1)) 0 0 \<noteq> Some (Fin 0)"
  by (simp add: DPMatrix_ctor_fresh match_read_def cell_read_fresh hmmer_consts)

text \<open>
  Beyond these sizes the constructor does not build the grid. \<open>DPMatrix(1431655765, 0)\<close>
  has a row of two cells, \<^verbatim>\<open>(M + 1) * 3\<close> having wrapped around to 2; for \<open>M = 715827882\<close>,
  the first size out of range, and for \<open>M\<close> or \<open>L\<close> equal to \<^verbatim>\<open>INT_MAX\<close> the size is
  negative and \<^verbatim>\<open>resize\<close> throws.
\<close>

lemma DPMatrix_ctor_overflow:
  "map_option dp (DPMatrix_ctor 1431655765 0) = Some [[NInf, NInf]]"
  "DPMatrix_ctor 715827882 0 = None"
  "DPMatrix_ctor 2147483647 0 = None"
  by (simp_all add: DPMatrix_ctor_def DPMatrix_rows.simps vec_resize_def vec_read_def vec_write_def
        int32_def hmmer_consts eval_nat_numeral)

lemma DPMatrix_ctor_overflow_rows: "DPMatrix_ctor M 2147483647 = None"
proof -
  have "vec_resize [] (int32 (2147483647 + 1)) ([] :: float list) = None"
    by (simp add: vec_resize_def int32_def)
  then show ?thesis by (simp add: DPMatrix_ctor_def)
qed

lemma cell_read_ctor:
  assumes "0 \<le> Mx" "Mx \<le> 715827881" "0 \<le> Lx" "Lx \<le> 429496728"
  shows "cell_read (the (DPMatrix_ctor Mx Lx)) i j
         = (if 0 \<le> i \<and> i \<le> Lx \<and> 0 \<le> j \<and> j < (Mx + 1) * p7G_NSCELLS then Some NInf else None)"
  using assms by (auto simp: DPMatrix_ctor_fresh cell_read_fresh hmmer_consts)

lemma special_read_ctor:
  assumes "0 \<le> Mx" "Mx \<le> 715827881" "0 \<le> Lx" "Lx \<le> 429496728"
  shows "special_read (the (DPMatrix_ctor Mx Lx)) i s
         = (if 0 \<le> i * p7G_NXCELLS + s \<and> i * p7G_NXCELLS + s < (Lx + 1) * p7G_NXCELLS then Some NInf else None)"
  using assms by (auto simp: DPMatrix_ctor_fresh special_read_def vec_read_replicate hmmer_consts)

section \<open>A call on a fresh matrix computes the recurrence\<close>

lemma match_read_fresh:
  assumes "0 \<le> Mx" "Mx \<le> 715827881" "0 \<le> Lx" "Lx \<le> 429496728"
  shows "match_read (the (DPMatrix_ctor Mx Lx)) i k
         = (if 0 \<le> i \<and> i \<le> Lx \<and> 0 \<le> k \<and> k \<le> Mx then Some NInf else None)"
  using assms by (auto simp: DPMatrix_ctor_fresh match_read_def cell_read_fresh hmmer_consts)

lemma fresh_run_cells:
  assumes run: "compute_msv S L p (the (DPMatrix_ctor Mx Lx)) e = Some (score, S', m')"
    and dims: "0 < L" "0 < model_length p" "L \<le> Lx" "model_length p \<le> Mx"
    and fit: "Mx \<le> 715827881" "Lx \<le> 429496728"
    and ik: "0 \<le> i" "i \<le> L" "0 \<le> k" "k \<le> model_length p"
  shows "match_read m' i k = Some (msv_cell p S i k)"
  using ik
proof (induction "nat i" arbitrary: i k)
  case 0
  then have "i = 0" by simp
  with compute_msv_row0[OF run dims(1,2) "0.prems"(3,4)] show ?case
    by (simp add: msv_cell.simps[of p S 0])
next
  case (Suc n)
  then have i: "1 \<le> i" and n: "n = nat (i - 1)" by linarith+
  let ?M = "model_length p"
  show ?case
  proof (cases "k = 0")
    case True
    have "cell_read m' i (0 * p7G_NSCELLS + p7G_M) = cell_read (the (DPMatrix_ctor Mx Lx)) i (0 * p7G_NSCELLS + p7G_M)"
    proof (rule ccontr)
      assume "\<not> ?thesis"
      from compute_msv_changes(2)[OF run this] i show False by (auto simp: hmmer_consts)
    qed
    then have "match_read m' i 0 = match_read (the (DPMatrix_ctor Mx Lx)) i 0"
      by (simp add: match_read_def)
    also have "\<dots> = Some NInf"
      using dims fit Suc.prems i by (subst match_read_fresh) auto
    finally show ?thesis using True i by (simp add: msv_cell.simps[of p S i])
  next
    case False
    with Suc.prems have k: "1 \<le> k" by simp
    from compute_msv_rows[OF run dims(1,2) i \<open>i \<le> L\<close>] have rr: "recurrence_row p S m' ?M i" .
    then obtain r where r: "vec_read S i = Some r" by (auto simp: recurrence_row_def split: option.splits)
    show ?thesis
    proof (cases "20 \<le> uint r")
      case True
      with rr r k Suc.prems have "match_read m' i k = Some (Fin 0)"
        by (auto simp: recurrence_row_def)
      then show ?thesis using True r i k by (simp add: msv_cell.simps[of p S i])
    next
      case False
      with rr r k Suc.prems obtain ms prev where
        *: "match_score p k (uint r) = Some ms" "match_read m' (i - 1) (k - 1) = Some prev"
           "match_read m' i k = Some (dp_step prev ms)"
        by (fastforce simp: recurrence_row_def split: option.splits)
      have "match_read m' (i - 1) (k - 1) = Some (msv_cell p S (i - 1) (k - 1))"
        using Suc.prems i k by (intro Suc.hyps(1)[OF n]) auto
      with * have "match_read m' i k = Some (dp_step (msv_cell p S (i - 1) (k - 1)) ms)" by simp
      then show ?thesis using False r i k * by (simp add: msv_cell.simps[of p S i])
    qed
  qed
qed

lemma fresh_run_returns:
  assumes "0 \<le> Mx" "0 \<le> Lx" "L \<le> Lx" "model_length p \<le> Mx"
    and "Mx \<le> 715827881" "Lx \<le> 429496728"
    and "\<And>i. 1 \<le> i \<Longrightarrow> i \<le> L \<Longrightarrow>
           \<exists>r. vec_read S i = Some r \<and>
               (uint r < 20 \<longrightarrow> (\<forall>k. 1 \<le> k \<and> k \<le> model_length p \<longrightarrow> match_score p k (uint r) \<noteq> None))"
  shows "\<exists>score S' m'. compute_msv S L p (the (DPMatrix_ctor Mx Lx)) e = Some (score, S', m')"
proof -
  have "compute_msv S L p (the (DPMatrix_ctor Mx Lx)) e \<noteq> None"
  proof (rule compute_msv_returns)
    fix i k assume "0 \<le> i" "i \<le> L" "0 \<le> k" "k \<le> model_length p"
    then show "match_read (the (DPMatrix_ctor Mx Lx)) i k \<noteq> None"
      using assms(1-6) by (simp add: match_read_fresh)
  qed (use assms(7) in auto)
  then show ?thesis by auto
qed

lemma fresh_run_score:
  assumes run: "compute_msv S L p (the (DPMatrix_ctor Mx Lx)) e = Some (score, S', m')"
    and dims: "0 < L" "0 < model_length p" "L \<le> Lx" "model_length p \<le> Mx"
    and fit: "Mx \<le> 715827881" "Lx \<le> 429496728"
  shows "fle (Fin 0) score"
    and "1 \<le> i \<Longrightarrow> i \<le> L \<Longrightarrow> 1 \<le> k \<Longrightarrow> k \<le> model_length p \<Longrightarrow> fle (msv_cell p S i k) score"
    and "score = Fin 0 \<or> (\<exists>i k. 1 \<le> i \<and> i \<le> L \<and> 1 \<le> k \<and> k \<le> model_length p \<and> score = msv_cell p S i k)"
proof -
  note sc = compute_msv_score[OF run dims(1,2)]
  show "fle (Fin 0) score" by (rule sc(1))
  show "fle (msv_cell p S i k) score" if "1 \<le> i" "i \<le> L" "1 \<le> k" "k \<le> model_length p"
  proof -
    from sc(2)[OF that] obtain v where "match_read m' i k = Some v" "fle v score" by blast
    moreover have "match_read m' i k = Some (msv_cell p S i k)"
      using that by (intro fresh_run_cells[OF run dims fit]) auto
    ultimately show ?thesis by simp
  qed
  from sc(3) show "score = Fin 0 \<or> (\<exists>i k. 1 \<le> i \<and> i \<le> L \<and> 1 \<le> k \<and> k \<le> model_length p \<and> score = msv_cell p S i k)"
  proof
    assume "score = Fin 0" then show ?thesis by simp
  next
    assume "\<exists>i k. 1 \<le> i \<and> i \<le> L \<and> 1 \<le> k \<and> k \<le> model_length p \<and> match_read m' i k = Some score"
    then obtain i k where ik: "1 \<le> i" "i \<le> L" "1 \<le> k" "k \<le> model_length p"
      and "match_read m' i k = Some score" by blast
    moreover have "match_read m' i k = Some (msv_cell p S i k)"
      using ik by (intro fresh_run_cells[OF run dims fit]) auto
    ultimately have "score = msv_cell p S i k" by simp
    with ik show ?thesis by blast
  qed
qed

section \<open>The fixtures\<close>

lemma concat_pairs_nth: "j < n \<Longrightarrow> concat (replicate n [v, w]) ! (2 * j) = v"
proof (induction n arbitrary: j)
  case 0
  then show ?case by simp
next
  case (Suc n)
  then show ?case by (cases j) auto
qed

lemma constant_row_read:
  assumes "1 \<le> k" "k \<le> int n"
  shows "vec_read (NInf # NInf # concat (replicate n [v, NInf])) (k * p7P_NR + p7P_MSC) = Some v"
proof -
  obtain j where j: "nat (k * 2) = Suc (Suc (2 * j))" "j < n"
    using assms by (intro that[of "nat (k - 1)"]) (auto simp: nat_mult_distrib nat_diff_distrib)
  have "length (concat (replicate n [v, NInf])) = 2 * n"
    by (induction n) auto
  then show ?thesis using assms j by (simp add: vec_read_def hmmer_consts concat_pairs_nth)
qed

lemma constant_rsc_match_score:
  assumes "rsc p = replicate 20 (NInf # NInf # concat (replicate n [v, NInf])) @ rest"
    and "1 \<le> k" "k \<le> int n" "0 \<le> x" "x < 20"
  shows "match_score p k x = Some v"
proof -
  have "nat x < 20" using assms(4,5) by linarith
  then have "vec_read (rsc p) x = Some (NInf # NInf # concat (replicate n [v, NInf]))"
    using assms(4,5) by (simp add: assms(1) vec_read_def nth_append)
  then show ?thesis using constant_row_read[OF assms(2,3), of v] by (simp add: match_score_def)
qed

lemma ConstantAllOnes_profile_value:
  "case create_constant_score_profile 5 (Fin 1) get_test_alphabet of
     None \<Rightarrow> False
   | Some p \<Rightarrow> model_length p = 5 \<and>
       rsc p = replicate 20 (NInf # NInf # concat (replicate 5 [Fin 1, NInf])) @ replicate 9 (replicate 12 NInf)"
  by code_simp

lemma ConstantAllOnes_profile:
  "model_length (the (create_constant_score_profile 5 (Fin 1) get_test_alphabet)) = 5"
  "1 \<le> k \<Longrightarrow> k \<le> 5 \<Longrightarrow> 0 \<le> x \<Longrightarrow> x < 20 \<Longrightarrow>
     match_score (the (create_constant_score_profile 5 (Fin 1) get_test_alphabet)) k x = Some (Fin 1)"
  using ConstantAllOnes_profile_value
  by (auto split: option.splits intro: constant_rsc_match_score[where n = 5])

lemma vec_read_create_digital_sequence:
  "1 \<le> i \<Longrightarrow> i \<le> int (length rs) \<Longrightarrow>
   vec_read (create_digital_sequence rs) i = Some (rs ! nat (i - 1))"
  by (auto simp: vec_read_def create_digital_sequence_def nth_Cons' nth_append nat_diff_distrib)

lemma canonical_create_digital_sequence:
  assumes "\<forall>r\<in>set rs. uint r < 20" "1 \<le> i" "i \<le> int (length rs)"
  shows "\<exists>r. vec_read (create_digital_sequence rs) i = Some r \<and> uint r < 20"
proof -
  have "rs ! nat (i - 1) \<in> set rs" using assms(2,3) by (intro nth_mem) auto
  with assms show ?thesis by (simp add: vec_read_create_digital_sequence)
qed

lemma ConstantAllOnes_returns:
  "\<exists>score S' m'. compute_msv (create_digital_sequence [0, 1, 2, 3, 4]) 5
      (the (create_constant_score_profile 5 (Fin 1) get_test_alphabet))
      (the (DPMatrix_ctor 5 5)) (Fin 1) = Some (score, S', m')"
proof (rule fresh_run_returns)
  fix i :: int assume i: "1 \<le> i" "i \<le> 5"
  have "\<exists>r. vec_read (create_digital_sequence [0, 1, 2, 3, 4]) i = Some r \<and> uint r < 20"
    using i by (intro canonical_create_digital_sequence) auto
  then show "\<exists>r. vec_read (create_digital_sequence [0, 1, 2, 3, 4]) i = Some r \<and>
           (uint r < 20 \<longrightarrow> (\<forall>k. 1 \<le> k \<and> k \<le> model_length (the (create_constant_score_profile 5 (Fin 1) get_test_alphabet)) \<longrightarrow>
              match_score (the (create_constant_score_profile 5 (Fin 1) get_test_alphabet)) k (uint r) \<noteq> None))"
    by (auto simp: ConstantAllOnes_profile)
qed (simp_all add: ConstantAllOnes_profile)

section \<open>Degenerate lengths\<close>

text \<open>
  C6: when the sequence length or the model length of the profile is not positive,
  \<open>compute_msv\<close> returns the score 0 whatever the other arguments are; no access is made,
  so nothing can fail, and the sequence and the matrix are left as they were.
\<close>

theorem compute_msv_nonpositive_lengths:
  "sequence_length \<le> 0 \<or> model_length profile \<le> 0 \<Longrightarrow>
   compute_msv digital_sequence sequence_length profile dp_matrix expected_hit_count
     = Some (Fin 0, digital_sequence, dp_matrix)"
  by (simp add: compute_msv_def)

theorem compute_msv_nonpositive_lengths_witness:
  "((0::int) \<le> 0 \<or> model_length (the (create_constant_score_profile 5 (Fin 1) get_test_alphabet)) \<le> 0) \<and>
   compute_msv (create_digital_sequence []) 0
     (the (create_constant_score_profile 5 (Fin 1) get_test_alphabet))
     (the (DPMatrix_ctor 5 0)) (Fin 1)
   = Some (Fin 0, create_digital_sequence [], the (DPMatrix_ctor 5 0))"
  using compute_msv_nonpositive_lengths[where sequence_length = 0] by simp

section \<open>The sequence buffer\<close>

text \<open>
  C7: when \<open>compute_msv\<close> returns, the sequence buffer is what it was before the call;
  in particular the sentinel positions 0 and \<open>L + 1\<close> hold the values they held. No loop
  of the engine stores into the buffer.
\<close>

theorem compute_msv_leaves_sequence:
  "compute_msv S L p m e = Some (score, S', m') \<Longrightarrow>
   S' = S \<and> vec_read S' 0 = vec_read S 0 \<and> vec_read S' (L + 1) = vec_read S (L + 1)"
  using compute_msv_sequence[of S L p m e score S' m'] by simp

theorem compute_msv_leaves_sequence_witness:
  "\<exists>score m'. compute_msv (create_digital_sequence [0, 1, 2, 3, 4]) 5
      (the (create_constant_score_profile 5 (Fin 1) get_test_alphabet))
      (the (DPMatrix_ctor 5 5)) (Fin 1) = Some (score, create_digital_sequence [0, 1, 2, 3, 4], m')"
  using ConstantAllOnes_returns compute_msv_leaves_sequence by blast

section \<open>The cells that the call does not write\<close>

text \<open>
  C9: a call on a matrix fresh from the constructor (of any dimensions \<open>Mx\<close>, \<open>Lx\<close>
  that the constructor builds in full, \<open>Mx \<le> 715827881\<close> and \<open>Lx \<le> 429496728\<close>)
  that returns leaves at negative infinity every special-state cell, every insert and
  delete cell, column 0 of every row from 1 on, and every match cell outside row 0 at
  the positions \<open>0..M\<close> and the rows \<open>1..L\<close> at the positions \<open>1..M\<close>.
\<close>

theorem compute_msv_writes_only_match_cells:
  assumes "0 \<le> Mx" "Mx \<le> 715827881" "0 \<le> Lx" "Lx \<le> 429496728"
    and run: "compute_msv S L p (the (DPMatrix_ctor Mx Lx)) e = Some (score, S', m')"
  shows "(\<forall>i\<in>{0..Lx}. \<forall>s\<in>{0..<p7G_NXCELLS}. special_read m' i s = Some NInf) \<and>
         (\<forall>i\<in>{0..Lx}. \<forall>k\<in>{0..Mx}.
            insert_read m' i k = Some NInf \<and> delete_state_read m' i k = Some NInf) \<and>
         (\<forall>i\<in>{1..Lx}. match_read m' i 0 = Some NInf) \<and>
         (\<forall>i\<in>{0..Lx}. \<forall>k\<in>{0..Mx}.
            \<not> (i = 0 \<and> k \<le> model_length p \<or> 1 \<le> i \<and> i \<le> L \<and> 1 \<le> k \<and> k \<le> model_length p) \<longrightarrow>
            match_read m' i k = Some NInf)"
proof -
  let ?m = "the (DPMatrix_ctor Mx Lx)"
  note fresh = cell_read_ctor[OF assms(1-4)]
  have keep: "cell_read m' i j = cell_read ?m i j"
    if "\<And>k. j = k * p7G_NSCELLS + p7G_M \<Longrightarrow>
          \<not> (i = 0 \<and> 0 \<le> k \<and> k \<le> model_length p \<or> 1 \<le> i \<and> i \<le> L \<and> 1 \<le> k \<and> k \<le> model_length p)" for i j
  proof (rule ccontr)
    assume "\<not> ?thesis"
    from compute_msv_changes(2)[OF run this] that show False by blast
  qed
  have x: "xmx m' = xmx ?m" by (rule compute_msv_changes(1)[OF run])
  have 1: "special_read m' i s = Some NInf" if "i \<in> {0..Lx}" "s \<in> {0..<p7G_NXCELLS}" for i s
    using that special_read_ctor[OF assms(1-4), of i s]
    by (simp add: special_read_def x p7G_NXCELLS_def)
  have 2: "insert_read m' i k = Some NInf \<and> delete_state_read m' i k = Some NInf"
    if "i \<in> {0..Lx}" "k \<in> {0..Mx}" for i k
  proof -
    have "cell_read m' i (k * p7G_NSCELLS + p7G_I) = cell_read ?m i (k * p7G_NSCELLS + p7G_I)"
      by (rule keep) (simp add: hmmer_consts, presburger)
    moreover have "cell_read m' i (k * p7G_NSCELLS + p7G_D) = cell_read ?m i (k * p7G_NSCELLS + p7G_D)"
      by (rule keep) (simp add: hmmer_consts, presburger)
    ultimately show ?thesis
      using that by (simp add: insert_read_def delete_state_read_def fresh hmmer_consts)
  qed
  have 4: "match_read m' i k = Some NInf"
    if "i \<in> {0..Lx}" "k \<in> {0..Mx}"
      "\<not> (i = 0 \<and> k \<le> model_length p \<or> 1 \<le> i \<and> i \<le> L \<and> 1 \<le> k \<and> k \<le> model_length p)" for i k
  proof -
    have "cell_read m' i (k * p7G_NSCELLS + p7G_M) = cell_read ?m i (k * p7G_NSCELLS + p7G_M)"
      using that by (intro keep) (auto simp: hmmer_consts)
    then show ?thesis using that by (simp add: match_read_def fresh hmmer_consts)
  qed
  have 3: "match_read m' i 0 = Some NInf" if "i \<in> {1..Lx}" for i
    using that assms(1) by (intro 4) auto
  from 1 2 3 4 show ?thesis by blast
qed

theorem compute_msv_writes_only_match_cells_witness:
  "(0::int) \<le> 5 \<and> (5::int) \<le> 715827881 \<and> (5::int) \<le> 429496728 \<and> (\<exists>score S' m'. compute_msv (create_digital_sequence [0, 1, 2, 3, 4]) 5
      (the (create_constant_score_profile 5 (Fin 1) get_test_alphabet))
      (the (DPMatrix_ctor 5 5)) (Fin 1) = Some (score, S', m') \<and>
      special_read m' 5 4 = Some NInf \<and> insert_read m' 3 3 = Some NInf \<and>
      delete_state_read m' 0 0 = Some NInf \<and> match_read m' 2 0 = Some NInf)"
proof -
  from ConstantAllOnes_returns obtain score S' m' where
    run: "compute_msv (create_digital_sequence [0, 1, 2, 3, 4]) 5
      (the (create_constant_score_profile 5 (Fin 1) get_test_alphabet))
      (the (DPMatrix_ctor 5 5)) (Fin 1) = Some (score, S', m')" by blast
  have "(0::int) \<le> 5" "(5::int) \<le> 715827881" "(5::int) \<le> 429496728" by simp_all
  from compute_msv_writes_only_match_cells[OF this(1,2,1,3) run] run show ?thesis
    by (auto simp: p7G_NXCELLS_def)
qed

section \<open>The score is never negative\<close>

lemma dp_step_nonpositive:
  assumes "c \<le> 0" "prev = Fin 0 \<or> prev = NInf \<or> prev = NaN"
  shows "dp_step prev (Fin c) = Fin 0"
proof -
  have "dp_step (Fin 0) (Fin c) = Fin 0"
  proof -
    have "fle (rnd32 (0 + c)) (rnd32 0)" using assms(1) by (intro rnd32_mono) simp
    then have "fle (rnd32 c) (Fin 0)" by simp
    then show ?thesis using assms(1)
      by (cases "rnd32 c") (auto simp: dp_step_Fin std_max_def fle_def)
  qed
  moreover have "dp_step NInf (Fin c) = Fin 0" "dp_step NaN (Fin c) = Fin 0"
    using assms(1) by (simp_all add: dp_step_prev_NInf dp_step_prev_NaN)
  ultimately show ?thesis using assms(2) by auto
qed

lemma msv_cell_nonpositive:
  assumes sc: "\<And>k x. 1 \<le> k \<Longrightarrow> k \<le> M \<Longrightarrow> 0 \<le> x \<Longrightarrow> x < 20 \<Longrightarrow> match_score p k x = Some (Fin c)"
    and c: "c \<le> 0" and k: "k \<le> M"
  shows "msv_cell p S i k = Fin 0 \<or> msv_cell p S i k = NInf \<or> msv_cell p S i k = NaN"
  using k
proof (induction "nat i" arbitrary: i k)
  case 0
  then show ?case by (simp add: msv_cell.simps[of p S i])
next
  case (Suc n)
  then have i: "0 < i" and n: "n = nat (i - 1)" by linarith+
  show ?case
  proof (cases "k \<le> 0")
    case True
    with i show ?thesis by (simp add: msv_cell.simps[of p S i])
  next
    case k0: False
    show ?thesis
    proof (cases "vec_read S i")
      case None
      with i k0 show ?thesis by (simp add: msv_cell.simps[of p S i])
    next
      case (Some r)
      show ?thesis
      proof (cases "20 \<le> uint r")
        case True
        with i k0 Some show ?thesis by (simp add: msv_cell.simps[of p S i])
      next
        case False
        then have "match_score p k (uint r) = Some (Fin c)"
          using k0 Suc.prems by (intro sc) auto
        moreover have "msv_cell p S (i - 1) (k - 1) = Fin 0 \<or> msv_cell p S (i - 1) (k - 1) = NInf
                       \<or> msv_cell p S (i - 1) (k - 1) = NaN"
          using Suc.prems by (intro Suc.hyps(1)[OF n]) simp
        ultimately have "msv_cell p S i k = Fin 0"
          using i k0 Some False dp_step_nonpositive[OF c]
          by (simp add: msv_cell.simps[of p S i k])
        then show ?thesis by simp
      qed
    qed
  qed
qed

lemma compute_msv_nonpositive_profile:
  assumes dims: "0 < model_length p" "0 < L"
    and fit: "model_length p \<le> 715827881" "L \<le> 429496728"
    and sc: "\<And>k x. 1 \<le> k \<Longrightarrow> k \<le> model_length p \<Longrightarrow> 0 \<le> x \<Longrightarrow> x < 20 \<Longrightarrow> match_score p k x = Some (Fin c)"
    and c: "c \<le> 0"
    and seq: "\<And>i. 1 \<le> i \<Longrightarrow> i \<le> L \<Longrightarrow> vec_read S i \<noteq> None"
  shows "\<exists>m'. compute_msv S L p (the (DPMatrix_ctor (model_length p) L)) e = Some (Fin 0, S, m') \<and>
           (\<forall>i\<in>{0..L}. \<forall>k\<in>{1..model_length p}. match_read m' i k = Some (Fin 0))"
proof -
  let ?M = "model_length p"
  have "\<exists>score S' m'. compute_msv S L p (the (DPMatrix_ctor ?M L)) e = Some (score, S', m')"
  proof (rule fresh_run_returns)
    fix i assume "1 \<le> i" "i \<le> L"
    from seq[OF this] obtain r where r: "vec_read S i = Some r" by auto
    have "match_score p k (uint r) \<noteq> None" if "uint r < 20" "1 \<le> k" "k \<le> ?M" for k
      using sc[of k "uint r"] that by simp
    with r show "\<exists>r. vec_read S i = Some r \<and>
           (uint r < 20 \<longrightarrow> (\<forall>k. 1 \<le> k \<and> k \<le> ?M \<longrightarrow> match_score p k (uint r) \<noteq> None))"
      by auto
  qed (use dims fit in auto)
  then obtain score S' m' where
    run: "compute_msv S L p (the (DPMatrix_ctor ?M L)) e = Some (score, S', m')" by blast
  have S: "S' = S" by (rule compute_msv_sequence[OF run])
  have d: "0 < L" "0 < ?M" "L \<le> L" "?M \<le> ?M" using dims by auto
  have zero: "msv_cell p S i k = Fin 0 \<or> msv_cell p S i k = NInf \<or> msv_cell p S i k = NaN"
    if "k \<le> ?M" for i k
    using msv_cell_nonpositive[of ?M p c k S i] sc c that by auto
  have cells: "match_read m' i k = Some (Fin 0)" if "0 \<le> i" "i \<le> L" "1 \<le> k" "k \<le> ?M" for i k
  proof (cases "i = 0")
    case True
    with compute_msv_row0[OF run d(1,2), of k] that show ?thesis by simp
  next
    case False
    with that have i: "1 \<le> i" by simp
    have "match_read m' i k = Some (msv_cell p S i k)"
      using that by (intro fresh_run_cells[OF run d fit]) auto
    moreover from compute_msv_cells_nonneg[OF run i that(2,3,4)]
    obtain v where "match_read m' i k = Some v" "fle (Fin 0) v" by blast
    ultimately show ?thesis using zero[OF that(4), of i] by auto
  qed
  have "score = Fin 0"
    using fresh_run_score(3)[OF run d fit]
  proof
    assume "\<exists>i k. 1 \<le> i \<and> i \<le> L \<and> 1 \<le> k \<and> k \<le> ?M \<and> score = msv_cell p S i k"
    then obtain i k where "k \<le> ?M" "score = msv_cell p S i k" by blast
    with zero[of k i] have "score = Fin 0 \<or> score = NInf \<or> score = NaN" by auto
    with fresh_run_score(1)[OF run d fit] show ?thesis by auto
  qed simp
  with run S cells show ?thesis by auto
qed

lemma compute_msv_score_nonneg:
  assumes "compute_msv S L p m e = Some (score, S', m')"
  shows "fle (Fin 0) score"
proof (cases "0 < L \<and> 0 < model_length p")
  case True
  with compute_msv_score(1)[OF assms] show ?thesis by simp
next
  case False
  with assms show ?thesis by (auto simp: compute_msv_def)
qed

lemma AllNegativeScores_profile_value:
  "(case create_constant_score_profile 5 (Fin (- 2)) get_test_alphabet of
     None \<Rightarrow> False
   | Some p \<Rightarrow> model_length p = 5 \<and>
       rsc p = replicate 20 (NInf # NInf # concat (replicate 5 [Fin (- 2), NInf])) @ replicate 9 (replicate 12 NInf))"
  by code_simp

lemma AllNegativeScores_profile:
  "model_length (the (create_constant_score_profile 5 (Fin (- 2)) get_test_alphabet)) = 5"
  "1 \<le> k \<Longrightarrow> k \<le> 5 \<Longrightarrow> 0 \<le> x \<Longrightarrow> x < 20 \<Longrightarrow>
     match_score (the (create_constant_score_profile 5 (Fin (- 2)) get_test_alphabet)) k x = Some (Fin (- 2))"
  using AllNegativeScores_profile_value
  by (auto split: option.splits intro: constant_rsc_match_score[where n = 5])

text \<open>
  C2, as the code has it. The score of a call that returns is at least 0, and so is
  every match cell \<open>(i, k)\<close>, \<open>i\<close> in \<open>[1, L]\<close>, \<open>k\<close> in \<open>[1, M]\<close>, that the call has stored,
  whatever the sequence, the profile and the matrix are. And with \<open>M = 5\<close>, \<open>L = 5\<close> and
  every match score \<open>-2\<close>, a call on the matrix \<open>m5\<close> that \<open>DPMatrix(5, 5)\<close> has just built
  returns the score 0 (not \<open>-2\<close>) and leaves 0 in every match cell of the rows \<open>0..5\<close> at
  the positions \<open>1..5\<close>, for every sequence whose positions \<open>1..5\<close> can be read. (The cells
  of column 0 from row 1 on are not stored by the call: they stay at negative infinity.)
\<close>

theorem compute_msv_score_nonnegative:
  "(compute_msv S L p m e = Some (score, S', m') \<longrightarrow>
      fle (Fin 0) score \<and>
      (\<forall>i\<in>{1..L}. \<forall>k\<in>{1..model_length p}. \<exists>v. match_read m' i k = Some v \<and> fle (Fin 0) v)) \<and>
   (model_length q = 5 \<and> (\<forall>k\<in>{1..5}. \<forall>x\<in>{0..<20}. match_score q k x = Some (Fin (- 2))) \<and>
    (\<forall>i\<in>{1..5}. vec_read T i \<noteq> None) \<and> DPMatrix_ctor 5 5 = Some m5 \<longrightarrow>
    (\<exists>m''. compute_msv T 5 q m5 e' = Some (Fin 0, T, m'') \<and>
       (\<forall>i\<in>{0..5}. \<forall>k\<in>{1..5}. match_read m'' i k = Some (Fin 0))))"
proof (intro conjI impI)
  assume run: "compute_msv S L p m e = Some (score, S', m')"
  then show "fle (Fin 0) score" by (rule compute_msv_score_nonneg)
  show "\<forall>i\<in>{1..L}. \<forall>k\<in>{1..model_length p}. \<exists>v. match_read m' i k = Some v \<and> fle (Fin 0) v"
    using compute_msv_cells_nonneg[OF run] by simp
next
  assume a: "model_length q = 5 \<and> (\<forall>k\<in>{1..5}. \<forall>x\<in>{0..<20}. match_score q k x = Some (Fin (- 2))) \<and>
    (\<forall>i\<in>{1..5}. vec_read T i \<noteq> None) \<and> DPMatrix_ctor 5 5 = Some m5"
  have "\<exists>m''. compute_msv T 5 q (the (DPMatrix_ctor (model_length q) 5)) e' = Some (Fin 0, T, m'') \<and>
           (\<forall>i\<in>{0..5}. \<forall>k\<in>{1..model_length q}. match_read m'' i k = Some (Fin 0))"
    using a by (intro compute_msv_nonpositive_profile[where c = "- 2"]) auto
  with a show "\<exists>m''. compute_msv T 5 q m5 e' = Some (Fin 0, T, m'') \<and>
       (\<forall>i\<in>{0..5}. \<forall>k\<in>{1..5}. match_read m'' i k = Some (Fin 0))"
    by simp
qed

theorem compute_msv_score_nonnegative_witness:
  "(\<exists>score S' m'. compute_msv (create_digital_sequence [0, 1, 2, 3, 4]) 5
      (the (create_constant_score_profile 5 (Fin 1) get_test_alphabet))
      (the (DPMatrix_ctor 5 5)) (Fin 1) = Some (score, S', m') \<and> fle (Fin 0) score \<and>
      (\<exists>v. match_read m' 3 2 = Some v \<and> fle (Fin 0) v)) \<and>
   (\<exists>m5 m''. DPMatrix_ctor 5 5 = Some m5 \<and>
      compute_msv (create_digital_sequence [0, 1, 2, 3, 4]) 5
        (the (create_constant_score_profile 5 (Fin (- 2)) get_test_alphabet)) m5 (Fin 1)
        = Some (Fin 0, create_digital_sequence [0, 1, 2, 3, 4], m'') \<and>
      match_read m'' 3 2 = Some (Fin 0) \<and> match_read m'' 0 5 = Some (Fin 0))"
proof
  from ConstantAllOnes_returns obtain score S' m' where
    run: "compute_msv (create_digital_sequence [0, 1, 2, 3, 4]) 5
      (the (create_constant_score_profile 5 (Fin 1) get_test_alphabet))
      (the (DPMatrix_ctor 5 5)) (Fin 1) = Some (score, S', m')" by blast
  from compute_msv_score_nonnegative[THEN conjunct1, rule_format, OF run]
  have "fle (Fin 0) score \<and> (\<exists>v. match_read m' 3 2 = Some v \<and> fle (Fin 0) v)"
    by (simp add: ConstantAllOnes_profile)
  with run show "\<exists>score S' m'. compute_msv (create_digital_sequence [0, 1, 2, 3, 4]) 5
      (the (create_constant_score_profile 5 (Fin 1) get_test_alphabet))
      (the (DPMatrix_ctor 5 5)) (Fin 1) = Some (score, S', m') \<and> fle (Fin 0) score \<and>
      (\<exists>v. match_read m' 3 2 = Some v \<and> fle (Fin 0) v)" by blast
next
  have seq: "\<forall>i\<in>{1..5}. vec_read (create_digital_sequence [0, 1, 2, 3, 4]) i \<noteq> None"
    by (auto simp: vec_read_create_digital_sequence)
  have sc: "\<forall>k\<in>{1..5}. \<forall>x\<in>{0..<20}.
      match_score (the (create_constant_score_profile 5 (Fin (- 2)) get_test_alphabet)) k x = Some (Fin (- 2))"
    by (auto simp: AllNegativeScores_profile)
  obtain m5 where m5: "DPMatrix_ctor 5 5 = Some m5" by (simp add: DPMatrix_ctor_fresh)
  from compute_msv_score_nonnegative[where e' = "Fin 1", THEN conjunct2, rule_format,
      OF conjI[OF AllNegativeScores_profile(1) conjI[OF sc conjI[OF seq m5]]]]
  obtain m'' where r: "compute_msv (create_digital_sequence [0, 1, 2, 3, 4]) 5
        (the (create_constant_score_profile 5 (Fin (- 2)) get_test_alphabet)) m5 (Fin 1)
        = Some (Fin 0, create_digital_sequence [0, 1, 2, 3, 4], m'')"
    and cells: "\<forall>i\<in>{0..5}. \<forall>k\<in>{1..5}. match_read m'' i k = Some (Fin 0)" by blast
  from cells have "match_read m'' 3 2 = Some (Fin 0)" "match_read m'' 0 5 = Some (Fin 0)"
    by simp_all
  with m5 r show "\<exists>m5 m''. DPMatrix_ctor 5 5 = Some m5 \<and>
      compute_msv (create_digital_sequence [0, 1, 2, 3, 4]) 5
        (the (create_constant_score_profile 5 (Fin (- 2)) get_test_alphabet)) m5 (Fin 1)
        = Some (Fin 0, create_digital_sequence [0, 1, 2, 3, 4], m'') \<and>
      match_read m'' 3 2 = Some (Fin 0) \<and> match_read m'' 0 5 = Some (Fin 0)"
    by blast
qed

lemma dp_step_nonpositive_le:
  assumes "c \<le> 0" "0 \<le> B" "is_float B"
  shows "fle (dp_step (Fin B) (Fin c)) (Fin B)"
proof -
  have "fle (rnd32 (B + c)) (rnd32 B)" using assms(1) by (intro rnd32_mono) simp
  then have "fle (rnd32 (B + c)) (Fin B)" using assms(3) by (simp add: is_float_def)
  then show ?thesis using assms(1,2)
    by (cases "rnd32 (B + c)") (auto simp: dp_step_Fin std_max_def fle_def)
qed

lemma nonpositive_profile_bound:
  assumes run: "compute_msv S L p m e = Some (score, S', m')"
    and sc: "\<And>k x. 1 \<le> k \<Longrightarrow> k \<le> model_length p \<Longrightarrow> 0 \<le> x \<Longrightarrow> x < 20 \<Longrightarrow> match_score p k x = Some (Fin c)"
    and c: "c \<le> 0" and B: "0 \<le> B" "is_float B"
    and col: "\<And>i. 1 \<le> i \<Longrightarrow> i < L \<Longrightarrow> \<exists>v. match_read m i 0 = Some v \<and> fle v (Fin B)"
    and ik: "0 \<le> i" "i \<le> L" "0 \<le> k" "k \<le> model_length p" "i < L \<or> 1 \<le> k" "0 < L" "0 < model_length p"
  shows "\<exists>v. match_read m' i k = Some v \<and> fle v (Fin B) \<and>
           (1 \<le> i \<and> 1 \<le> k \<longrightarrow> fle v (dp_step (Fin B) (Fin c)))"
  using ik(1-5)
proof (induction "nat i" arbitrary: i k)
  case 0
  then have "i = 0" by simp
  with compute_msv_row0[OF run ik(6,7) "0.prems"(3,4)] B(1) show ?case by simp
next
  case (Suc n)
  then have i: "1 \<le> i" and n: "n = nat (i - 1)" by linarith+
  show ?case
  proof (cases "k = 0")
    case True
    with Suc.prems have "i < L" by simp
    from col[OF i this] compute_msv_column0[OF run i] True show ?thesis by simp
  next
    case False
    with Suc.prems have k: "1 \<le> k" by simp
    note top = dp_step_nonpositive_le[OF c B]
    from run i \<open>i \<le> L\<close> k \<open>k \<le> model_length p\<close> show ?thesis
    proof (rule compute_msv_cell)
      fix r assume "match_read m' i k = Some (Fin 0)"
      moreover have "fle (Fin 0) (dp_step (Fin B) (Fin c))" by (rule dp_step_nonneg)
      ultimately show ?thesis using B(1) by simp
    next
      fix r ms prev
      assume r: "vec_read S i = Some r" "uint r < 20" and ms: "match_score p k (uint r) = Some ms"
        and prev: "match_read m' (i - 1) (k - 1) = Some prev"
        and cell: "match_read m' i k = Some (dp_step prev ms)"
      have "ms = Fin c" using sc[of k "uint r"] k Suc.prems r ms by simp
      have "\<exists>v. match_read m' (i - 1) (k - 1) = Some v \<and> fle v (Fin B) \<and>
              (1 \<le> i - 1 \<and> 1 \<le> k - 1 \<longrightarrow> fle v (dp_step (Fin B) (Fin c)))"
        using Suc.prems i k by (intro Suc.hyps(1)[OF n]) auto
      with prev have "fle prev (Fin B)" by auto
      then have "fle (dp_step prev (Fin c)) (dp_step (Fin B) (Fin c))"
        by (intro dp_step_mono) (simp_all add: grows_def)
      with cell \<open>ms = Fin c\<close> top show ?thesis by (auto intro: fle_trans)
    qed
  qed
qed

lemma stale_step: "dp_step (Fin 100) (Fin (- 2)) = Fin 98" "is_float 100"
  by (simp_all add: dp_step_Fin std_max_def is_float_def rnd32_def rnd_val_def expo_def
        round_even_def Let_def eval_nat_numeral)

text \<open>
  C2 as stated fails when the matrix is not fresh. With \<open>M = 5\<close>, \<open>L = 5\<close> and every match
  score \<open>-2\<close>, on the matrix of \<open>DPMatrix(5, 5)\<close> in which the cell \<open>match(1, 0)\<close> has been
  set to 100, the call reads that cell for the cell \<open>(2, 1)\<close> and returns 98.
\<close>

theorem compute_msv_stale_matrix_counterexample:
  "match_write (the (DPMatrix_ctor 5 5)) 1 0 (Fin 100) \<noteq> None \<and>
   compute_msv (create_digital_sequence [0, 1, 2, 3, 4]) 5
      (the (create_constant_score_profile 5 (Fin (- 2)) get_test_alphabet))
      (the (match_write (the (DPMatrix_ctor 5 5)) 1 0 (Fin 100))) (Fin 1) \<noteq> None \<and>
   fst (the (compute_msv (create_digital_sequence [0, 1, 2, 3, 4]) 5
      (the (create_constant_score_profile 5 (Fin (- 2)) get_test_alphabet))
      (the (match_write (the (DPMatrix_ctor 5 5)) 1 0 (Fin 100))) (Fin 1))) = Fin 98 \<and>
   Fin 98 \<noteq> Fin 0"
proof -
  let ?p = "the (create_constant_score_profile 5 (Fin (- 2)) get_test_alphabet)"
  let ?S = "create_digital_sequence [0, 1, 2, 3, 4]"
  let ?m0 = "the (DPMatrix_ctor 5 5)"
  have fresh: "match_read ?m0 i k = (if 0 \<le> i \<and> i \<le> 5 \<and> 0 \<le> k \<and> k \<le> 5 then Some NInf else None)" for i k
    by (rule match_read_fresh) simp_all
  obtain m where w: "match_write ?m0 1 0 (Fin 100) = Some m"
    using match_write_None_iff[of ?m0 1 0 "Fin 100"] by (cases "match_write ?m0 1 0 (Fin 100)") (auto simp: fresh)
  note rd = match_read_match_write[OF w]
  have "compute_msv ?S 5 ?p m (Fin 1) \<noteq> None"
  proof (rule compute_msv_returns)
    fix i k :: int assume "0 \<le> i" "i \<le> 5" "0 \<le> k" "k \<le> model_length ?p"
    then show "match_read m i k \<noteq> None" by (simp add: rd fresh AllNegativeScores_profile)
  next
    fix i :: int assume i: "1 \<le> i" "i \<le> 5"
    have "\<exists>r. vec_read ?S i = Some r \<and> uint r < 20"
      using i by (intro canonical_create_digital_sequence) auto
    then show "\<exists>r. vec_read ?S i = Some r \<and>
           (uint r < 20 \<longrightarrow> (\<forall>k. 1 \<le> k \<and> k \<le> model_length ?p \<longrightarrow> match_score ?p k (uint r) \<noteq> None))"
      by (auto simp: AllNegativeScores_profile)
  qed
  then obtain score S' m' where run: "compute_msv ?S 5 ?p m (Fin 1) = Some (score, S', m')" by auto
  have d: "0 < (5::int)" "0 < model_length ?p" by (simp_all add: AllNegativeScores_profile)
  have sc: "match_score ?p k x = Some (Fin (- 2))" if "1 \<le> k" "k \<le> model_length ?p" "0 \<le> x" "x < 20" for k x
    using that by (simp add: AllNegativeScores_profile)
  have col: "\<exists>v. match_read m i 0 = Some v \<and> fle v (Fin 100)" if "1 \<le> i" "i < 5" for i
    using that by (simp add: rd fresh)
  have c21: "match_read m' 2 1 = Some (Fin 98)"
  proof -
    have "(1::int) \<le> 2" "(2::int) \<le> 5" "(1::int) \<le> 1" "1 \<le> model_length ?p"
      by (simp_all add: AllNegativeScores_profile)
    from run this show ?thesis
    proof (rule compute_msv_cell)
      fix r assume "vec_read ?S 2 = Some r" "20 \<le> uint r"
      then show ?thesis by (simp add: vec_read_create_digital_sequence)
    next
      fix r ms prev
      assume r: "vec_read ?S 2 = Some r" "uint r < 20" and ms: "match_score ?p 1 (uint r) = Some ms"
        and prev: "match_read m' (2 - 1) (1 - 1) = Some prev"
        and cell: "match_read m' 2 1 = Some (dp_step prev ms)"
      from ms r have "ms = Fin (- 2)" by (simp add: AllNegativeScores_profile)
      moreover from prev compute_msv_column0[OF run, of 1] have "prev = Fin 100" by (simp add: rd)
      ultimately show ?thesis using cell by (simp add: stale_step)
    qed
  qed
  have lower: "fle (Fin 98) score"
    using compute_msv_score(2)[OF run d, of 2 1] c21 by (simp add: AllNegativeScores_profile)
  have upper: "fle score (Fin 98)"
    using compute_msv_score(3)[OF run d]
  proof
    assume "score = Fin 0" then show ?thesis by simp
  next
    assume "\<exists>i k. 1 \<le> i \<and> i \<le> 5 \<and> 1 \<le> k \<and> k \<le> model_length ?p \<and> match_read m' i k = Some score"
    then obtain i k where ik: "1 \<le> i" "i \<le> 5" "1 \<le> k" "k \<le> model_length ?p"
      and s: "match_read m' i k = Some score" by blast
    from nonpositive_profile_bound[where c = "- 2" and B = 100 and i = i and k = k,
        OF run sc _ _ stale_step(2) col] ik s d
    show ?thesis by (auto simp: stale_step)
  qed
  from upper lower have "score = Fin 98" by (rule fle_antisym)
  with run w show ?thesis by simp
qed

section \<open>A constant profile\<close>

lemma std_max_of_le: "fle a b \<Longrightarrow> std_max a b = b"
  by (cases a; cases b) (auto simp: std_max_def fle_def)

lemma fadd_Fin_mono: "fle a b \<Longrightarrow> fle (fadd a (Fin c)) (fadd b (Fin c))"
  by (cases a; cases b) (auto simp: rnd32_mono)

lemma iter_sum_step: "fle (iter_sum n c) (iter_sum (Suc n) c)" if "0 \<le> c"
proof (induction n)
  case 0
  have "fle (rnd32 0) (rnd32 (0 + c))" using that by (intro rnd32_mono) simp
  then show ?case by simp
next
  case (Suc n)
  then show ?case by (simp add: fadd_Fin_mono del: fle_Fin)
qed

lemma iter_sum_mono: "0 \<le> c \<Longrightarrow> a \<le> b \<Longrightarrow> fle (iter_sum a c) (iter_sum b c)"
proof (induction b)
  case 0
  then show ?case by simp
next
  case (Suc b)
  show ?case
  proof (cases "a = Suc b")
    case True
    have "iter_sum (Suc b) c \<noteq> NaN"
      using iter_sum_step[OF Suc.prems(1), of b] by auto
    with True show ?thesis by simp
  next
    case False
    with Suc have "fle (iter_sum a c) (iter_sum b c)" by simp
    then show ?thesis using iter_sum_step[OF Suc.prems(1), of b] by (rule fle_trans)
  qed
qed

lemma iter_sum_nonneg: "0 \<le> c \<Longrightarrow> fle (Fin 0) (iter_sum n c)"
  using iter_sum_mono[of c 0 n] by simp

lemma iter_sum_one: "is_float c \<Longrightarrow> iter_sum (Suc 0) c = Fin c"
  by (simp add: is_float_def)

lemma iter_sum_ge: assumes "0 \<le> c" "is_float c" shows "fle (Fin c) (iter_sum (Suc n) c)"
  using iter_sum_mono[OF assms(1), of "Suc 0" "Suc n"] iter_sum_one[OF assms(2)] by simp

lemma dp_step_iter_sum:
  assumes "0 \<le> c" "is_float c"
  shows "dp_step (iter_sum n c) (Fin c) = iter_sum (Suc n) c"
proof -
  have "std_max (Fin c) (iter_sum (Suc n) c) = iter_sum (Suc n) c"
    using iter_sum_ge[OF assms] by (rule std_max_of_le)
  moreover have "std_max (Fin 0) (iter_sum (Suc n) c) = iter_sum (Suc n) c"
    using iter_sum_nonneg[OF assms(1)] by (rule std_max_of_le)
  ultimately show ?thesis by (simp add: dp_step_def Let_def)
qed

lemma dp_step_NInf_constant:
  assumes "0 \<le> c" "is_float c"
  shows "dp_step NInf (Fin c) = iter_sum (Suc 0) c"
  using assms by (simp add: dp_step_prev_NInf is_float_def max_def)

lemma msv_cell_constant:
  assumes sc: "\<And>k x. 1 \<le> k \<Longrightarrow> k \<le> M \<Longrightarrow> 0 \<le> x \<Longrightarrow> x < 20 \<Longrightarrow> match_score p k x = Some (Fin c)"
    and seq: "\<And>i. 1 \<le> i \<Longrightarrow> i \<le> L \<Longrightarrow> \<exists>r. vec_read S i = Some r \<and> uint r < 20"
    and c: "0 \<le> c" "is_float c"
    and ik: "1 \<le> i" "i \<le> L" "1 \<le> k" "k \<le> M"
  shows "msv_cell p S i k = iter_sum (nat (min i k)) c"
  using ik
proof (induction "nat i" arbitrary: i k)
  case 0
  then show ?case by simp
next
  case (Suc n)
  then have n: "n = nat (i - 1)" by linarith
  from seq[OF Suc.prems(1,2)] obtain r where r: "vec_read S i = Some r" "uint r < 20" by blast
  have ms: "match_score p k (uint r) = Some (Fin c)"
    using r Suc.prems by (intro sc) auto
  have unfold: "msv_cell p S i k = dp_step (msv_cell p S (i - 1) (k - 1)) (Fin c)"
    using Suc.prems r ms by (simp add: msv_cell.simps[of p S i k])
  consider "i = 1" | "1 < i" "k = 1" | "1 < i" "1 < k" using Suc.prems by linarith
  then show ?case
  proof cases
    case 1
    then have "msv_cell p S (i - 1) (k - 1) = iter_sum 0 c"
      by (simp add: msv_cell.simps[of p S 0])
    moreover have "nat (min i k) = Suc 0" using 1 Suc.prems by simp
    ultimately show ?thesis unfolding unfold using dp_step_iter_sum[OF c, of 0] by simp
  next
    case 2
    then have "msv_cell p S (i - 1) (k - 1) = NInf"
      by (simp add: msv_cell.simps[of p S "i - 1"])
    moreover have "nat (min i k) = Suc 0" using 2 by simp
    ultimately show ?thesis unfolding unfold using dp_step_NInf_constant[OF c] by simp
  next
    case 3
    have "msv_cell p S (i - 1) (k - 1) = iter_sum (nat (min (i - 1) (k - 1))) c"
      using 3 Suc.prems by (intro Suc.hyps(1)[OF n]) auto
    moreover have "nat (min i k) = Suc (nat (min (i - 1) (k - 1)))" using 3 by simp
    ultimately show ?thesis unfolding unfold using dp_step_iter_sum[OF c] by simp
  qed
qed

lemma compute_msv_constant:
  assumes dims: "0 \<le> model_length p" "0 \<le> L"
    and fit: "model_length p \<le> 715827881" "L \<le> 429496728"
    and sc: "\<And>k x. 1 \<le> k \<Longrightarrow> k \<le> model_length p \<Longrightarrow> 0 \<le> x \<Longrightarrow> x < 20 \<Longrightarrow> match_score p k x = Some (Fin c)"
    and seq: "\<And>i. 1 \<le> i \<Longrightarrow> i \<le> L \<Longrightarrow> \<exists>r. vec_read S i = Some r \<and> uint r < 20"
    and c: "0 \<le> c" "is_float c"
  shows "\<exists>S' m'. compute_msv S L p (the (DPMatrix_ctor (model_length p) L)) e
           = Some (iter_sum (nat (min (model_length p) L)) c, S', m')"
proof -
  let ?M = "model_length p"
  have "\<exists>score S' m'. compute_msv S L p (the (DPMatrix_ctor ?M L)) e = Some (score, S', m')"
  proof (rule fresh_run_returns)
    fix i assume "1 \<le> i" "i \<le> L"
    from seq[OF this] obtain r where r: "vec_read S i = Some r" by auto
    have "match_score p k (uint r) \<noteq> None" if "uint r < 20" "1 \<le> k" "k \<le> ?M" for k
      using sc[of k "uint r"] that by simp
    with r show "\<exists>r. vec_read S i = Some r \<and>
           (uint r < 20 \<longrightarrow> (\<forall>k. 1 \<le> k \<and> k \<le> ?M \<longrightarrow> match_score p k (uint r) \<noteq> None))"
      by auto
  qed (use dims fit in auto)
  then obtain score S' m' where
    run: "compute_msv S L p (the (DPMatrix_ctor ?M L)) e = Some (score, S', m')" by blast
  have "score = iter_sum (nat (min ?M L)) c"
  proof (cases "0 < L \<and> 0 < ?M")
    case False
    with dims have "nat (min ?M L) = 0" by auto
    with False run show ?thesis by (auto simp: compute_msv_def)
  next
    case True
    then have d: "0 < L" "0 < ?M" "L \<le> L" "?M \<le> ?M" by auto
    have cell: "msv_cell p S i k = iter_sum (nat (min i k)) c" if "1 \<le> i" "i \<le> L" "1 \<le> k" "k \<le> ?M" for i k
      using that by (intro msv_cell_constant[where M = ?M and L = L] sc seq c) auto
    have lower: "fle (iter_sum (nat (min ?M L)) c) score"
      using fresh_run_score(2)[OF run d fit, of L ?M] cell[of L ?M] True by (simp add: min.commute)
    have upper: "fle score (iter_sum (nat (min ?M L)) c)"
      using fresh_run_score(3)[OF run d fit]
    proof
      assume "score = Fin 0"
      then show ?thesis using iter_sum_nonneg[OF c(1)] by simp
    next
      assume "\<exists>i k. 1 \<le> i \<and> i \<le> L \<and> 1 \<le> k \<and> k \<le> ?M \<and> score = msv_cell p S i k"
      then obtain i k where ik: "1 \<le> i" "i \<le> L" "1 \<le> k" "k \<le> ?M" and s: "score = msv_cell p S i k"
        by blast
      have "nat (min i k) \<le> nat (min ?M L)" using ik by simp
      from iter_sum_mono[OF c(1) this] show ?thesis by (simp add: s cell[OF ik])
    qed
    from upper lower show ?thesis by (rule fle_antisym)
  qed
  with run show ?thesis by blast
qed

lemma iter_sum_exact:
  assumes "\<And>j. 1 \<le> j \<Longrightarrow> j \<le> n \<Longrightarrow> is_float (real j * c)"
  shows "iter_sum n c = Fin (real n * c)"
  using assms
proof (induction n)
  case 0
  then show ?case by simp
next
  case (Suc n)
  then have "iter_sum n c = Fin (real n * c)" by simp
  moreover have "is_float (real (Suc n) * c)" using Suc.prems[of "Suc n"] by simp
  ultimately show ?case by (simp add: is_float_def algebra_simps)
qed

lemma is_float_small:
  "is_float 1" "is_float 2" "is_float 3" "is_float 4" "is_float 5"
  by (simp_all add: is_float_def rnd32_def rnd_val_def expo_def round_even_def Let_def eval_nat_numeral)

lemma is_float_ulp: "is_float (8388609 / 8388608)"
  by (simp add: is_float_def rnd32_def rnd_val_def expo_def round_even_def Let_def eval_nat_numeral)

lemma iter_sum_ulp: "iter_sum 6 (8388609 / 8388608) = Fin (12582913 / 2097152)"
  by (simp add: rnd32_def rnd_val_def expo_def round_even_def Let_def eval_nat_numeral)

lemma rnd32_six_ulp: "rnd32 (25165827 / 4194304) = Fin (6291457 / 1048576)"
  by (simp add: rnd32_def rnd_val_def expo_def round_even_def Let_def eval_nat_numeral)

lemma ConstantAllOnes_profile_returns:
  assumes "0 \<le> L" "L \<le> 429496728" "\<And>i. 1 \<le> i \<Longrightarrow> i \<le> L \<Longrightarrow> vec_read S i \<noteq> None"
  shows "\<exists>score S' m'. compute_msv S L
      (the (create_constant_score_profile 5 (Fin 1) get_test_alphabet))
      (the (DPMatrix_ctor 5 L)) e = Some (score, S', m')"
proof (rule fresh_run_returns)
  fix i assume "1 \<le> i" "i \<le> L"
  from assms(3)[OF this] obtain r where "vec_read S i = Some r" by auto
  then show "\<exists>r. vec_read S i = Some r \<and>
           (uint r < 20 \<longrightarrow> (\<forall>k. 1 \<le> k \<and> k \<le> model_length (the (create_constant_score_profile 5 (Fin 1) get_test_alphabet)) \<longrightarrow>
              match_score (the (create_constant_score_profile 5 (Fin 1) get_test_alphabet)) k (uint r) \<noteq> None))"
    by (auto simp: ConstantAllOnes_profile)
qed (use assms(1,2) in \<open>simp_all add: ConstantAllOnes_profile\<close>)

lemma ulp_profile_value:
  "(case create_constant_score_profile 6 (Fin (8388609 / 8388608)) get_test_alphabet of
     None \<Rightarrow> False
   | Some p \<Rightarrow> model_length p = 6 \<and>
       rsc p = replicate 20 (NInf # NInf # concat (replicate 6 [Fin (8388609 / 8388608), NInf]))
               @ replicate 9 (replicate 14 NInf))"
  by code_simp

lemma ulp_profile:
  "model_length (the (create_constant_score_profile 6 (Fin (8388609 / 8388608)) get_test_alphabet)) = 6"
  "1 \<le> k \<Longrightarrow> k \<le> 6 \<Longrightarrow> 0 \<le> x \<Longrightarrow> x < 20 \<Longrightarrow>
     match_score (the (create_constant_score_profile 6 (Fin (8388609 / 8388608)) get_test_alphabet)) k x
       = Some (Fin (8388609 / 8388608))"
  using ulp_profile_value
  by (auto split: option.splits intro: constant_rsc_match_score[where n = 6])

text \<open>
  C1, as the code has it. Let every match score \<open>\<mu>(k, x)\<close>, \<open>k\<close> in \<open>[1, M]\<close>, \<open>x\<close> in
  \<open>[0, 20)\<close>, be the same float \<open>c \<ge> 0\<close>, let the positions \<open>1..L\<close> of the sequence hold
  canonical residues, and let the matrix be fresh from \<open>DPMatrix(M, L)\<close>, with
  \<open>M \<le> 715827881\<close> and \<open>L \<le> 429496728\<close> so that the constructor builds it in full. Then
  \<open>compute_msv\<close> returns, and its score is the float sum \<open>c + c + ... + c\<close> of \<open>min(M, L)\<close>
  terms, added from the left with every addition rounded. That sum is \<open>min(M, L) * c\<close>
  when every multiple \<open>j * c\<close>, \<open>1 \<le> j \<le> min(M, L)\<close>, is itself a float, as for the
  scores 1.0, 2.0 and 1.5 of the tests.
\<close>

theorem compute_msv_constant_profile:
  assumes "0 \<le> model_length p" "0 \<le> L" "0 \<le> c" "is_float c"
    and "model_length p \<le> 715827881" "L \<le> 429496728"
    and "\<forall>k\<in>{1..model_length p}. \<forall>x\<in>{0..<20}. match_score p k x = Some (Fin c)"
    and "\<forall>i\<in>{1..L}. \<exists>r. vec_read S i = Some r \<and> uint r < 20"
  shows "(\<exists>S' m'. compute_msv S L p (the (DPMatrix_ctor (model_length p) L)) e
            = Some (iter_sum (nat (min (model_length p) L)) c, S', m')) \<and>
         ((\<forall>j\<in>{1..nat (min (model_length p) L)}. is_float (real j * c)) \<longrightarrow>
            iter_sum (nat (min (model_length p) L)) c = Fin (real_of_int (min (model_length p) L) * c))"
proof
  show "\<exists>S' m'. compute_msv S L p (the (DPMatrix_ctor (model_length p) L)) e
            = Some (iter_sum (nat (min (model_length p) L)) c, S', m')"
    using assms by (intro compute_msv_constant) auto
  show "(\<forall>j\<in>{1..nat (min (model_length p) L)}. is_float (real j * c)) \<longrightarrow>
            iter_sum (nat (min (model_length p) L)) c = Fin (real_of_int (min (model_length p) L) * c)"
  proof
    assume "\<forall>j\<in>{1..nat (min (model_length p) L)}. is_float (real j * c)"
    then have "iter_sum (nat (min (model_length p) L)) c = Fin (real (nat (min (model_length p) L)) * c)"
      by (intro iter_sum_exact) auto
    then show "iter_sum (nat (min (model_length p) L)) c = Fin (real_of_int (min (model_length p) L) * c)"
      using assms(1,2) by simp
  qed
qed

theorem compute_msv_constant_profile_witness:
  "\<exists>S' m'. compute_msv (create_digital_sequence [0, 1, 2, 3, 4]) 5
      (the (create_constant_score_profile 5 (Fin 1) get_test_alphabet))
      (the (DPMatrix_ctor 5 5)) (Fin 1) = Some (Fin 5, S', m')"
proof -
  let ?p = "the (create_constant_score_profile 5 (Fin 1) get_test_alphabet)"
  have sc: "\<forall>k\<in>{1..model_length ?p}. \<forall>x\<in>{0..<20}. match_score ?p k x = Some (Fin 1)"
    by (auto simp: ConstantAllOnes_profile)
  have seq: "\<forall>i\<in>{1..5}. \<exists>r. vec_read (create_digital_sequence [0, 1, 2, 3, 4]) i = Some r \<and> uint r < 20"
    by (auto intro!: canonical_create_digital_sequence)
  have fl: "\<forall>j\<in>{1..nat (min (model_length ?p) 5)}. is_float (real j * 1)"
  proof
    fix j :: nat assume "j \<in> {1..nat (min (model_length ?p) 5)}"
    then have "j = 1 \<or> j = 2 \<or> j = 3 \<or> j = 4 \<or> j = 5"
      by (auto simp: ConstantAllOnes_profile)
    then show "is_float (real j * 1)" by (auto simp: is_float_small)
  qed
  from compute_msv_constant_profile[of ?p 5 1 "create_digital_sequence [0, 1, 2, 3, 4]" "Fin 1", OF _ _ _ is_float_small(1) _ _ sc seq] fl
  show ?thesis by (auto simp: ConstantAllOnes_profile)
qed

text \<open>
  C1 as stated fails on rounding. With \<open>M = L = 6\<close> and \<open>c = 1 + 2^-23\<close> (the float next
  above 1), the score is \<open>6 + 4 * 2^-23\<close>; the product \<open>6 * c\<close> is \<open>6 + 6 * 2^-23\<close>, and
  rounded to a float it is \<open>6 + 8 * 2^-23\<close>.
\<close>

theorem compute_msv_constant_profile_counterexample:
  "compute_msv (create_digital_sequence [0, 0, 0, 0, 0, 0]) 6
      (the (create_constant_score_profile 6 (Fin (8388609 / 8388608)) get_test_alphabet))
      (the (DPMatrix_ctor 6 6)) (Fin 1) \<noteq> None \<and>
   fst (the (compute_msv (create_digital_sequence [0, 0, 0, 0, 0, 0]) 6
      (the (create_constant_score_profile 6 (Fin (8388609 / 8388608)) get_test_alphabet))
      (the (DPMatrix_ctor 6 6)) (Fin 1))) = Fin (12582913 / 2097152) \<and>
   Fin (12582913 / 2097152) \<noteq> Fin (6 * (8388609 / 8388608)) \<and>
   Fin (12582913 / 2097152) \<noteq> rnd32 (6 * (8388609 / 8388608))"
proof -
  let ?p = "the (create_constant_score_profile 6 (Fin (8388609 / 8388608)) get_test_alphabet)"
  have "\<exists>S' m'. compute_msv (create_digital_sequence [0, 0, 0, 0, 0, 0]) 6 ?p (the (DPMatrix_ctor (model_length ?p) 6)) (Fin 1)
          = Some (iter_sum (nat (min (model_length ?p) 6)) (8388609 / 8388608), S', m')"
  proof (rule compute_msv_constant)
    fix i :: int assume "1 \<le> i" "i \<le> 6"
    then show "\<exists>r. vec_read (create_digital_sequence [0, 0, 0, 0, 0, 0]) i = Some r \<and> uint r < 20"
      by (intro canonical_create_digital_sequence) auto
  qed (simp_all add: ulp_profile is_float_ulp)
  then show ?thesis by (auto simp: ulp_profile iter_sum_ulp rnd32_six_ulp)
qed

section \<open>A residue that is skipped\<close>

lemma skipped_row_zero:
  assumes "compute_msv S L p m e = Some (score, S', m')"
    and "1 \<le> i" "i \<le> L" "vec_read S i = Some r" "20 \<le> uint r"
  shows "\<forall>k\<in>{1..model_length p}. match_read m' i k = Some (Fin 0)"
proof (cases "0 < model_length p")
  case False
  then show ?thesis by simp
next
  case True
  from assms(2,3) have "0 < L" by simp
  from compute_msv_rows[OF assms(1) this True assms(2,3)] assms(4,5)
  show ?thesis by (simp add: recurrence_row_def)
qed

text \<open>
  C3, as the code has it: at a sequence position \<open>i\<close> in \<open>[1, L]\<close> whose residue is 20 or
  more, a call that returns has stored 0 in every match cell \<open>(i, k)\<close>, \<open>k\<close> in \<open>[1, M]\<close>.
  The score carried along a diagonal is dropped there, not kept.
\<close>

theorem compute_msv_skipped_residue:
  assumes "compute_msv S L p m e = Some (score, S', m')"
    and "1 \<le> i" "i \<le> L" "vec_read S i = Some r" "20 \<le> uint r"
  shows "\<forall>k\<in>{1..model_length p}. match_read m' i k = Some (Fin 0)"
  using assms by (rule skipped_row_zero)

lemma skipped_run:
  obtains score S' m' where
    "compute_msv (create_digital_sequence [0, 26]) 2
      (the (create_constant_score_profile 5 (Fin 1) get_test_alphabet))
      (the (DPMatrix_ctor 5 2)) (Fin 1) = Some (score, S', m')"
proof -
  have "\<exists>score S' m'. compute_msv (create_digital_sequence [0, 26]) 2
      (the (create_constant_score_profile 5 (Fin 1) get_test_alphabet))
      (the (DPMatrix_ctor 5 2)) (Fin 1) = Some (score, S', m')"
    by (rule ConstantAllOnes_profile_returns) (simp_all add: vec_read_create_digital_sequence)
  then show ?thesis using that by blast
qed

theorem compute_msv_skipped_residue_witness:
  "\<exists>score S' m'. compute_msv (create_digital_sequence [0, 26]) 2
      (the (create_constant_score_profile 5 (Fin 1) get_test_alphabet))
      (the (DPMatrix_ctor 5 2)) (Fin 1) = Some (score, S', m') \<and>
     match_read m' 2 1 = Some (Fin 0) \<and> match_read m' 2 2 = Some (Fin 0)"
proof -
  obtain score S' m' where run: "compute_msv (create_digital_sequence [0, 26]) 2
      (the (create_constant_score_profile 5 (Fin 1) get_test_alphabet))
      (the (DPMatrix_ctor 5 2)) (Fin 1) = Some (score, S', m')" by (rule skipped_run)
  have r: "vec_read (create_digital_sequence [0, 26]) 2 = Some 26"
    by (simp add: vec_read_create_digital_sequence)
  from compute_msv_skipped_residue[OF run _ _ r] run show ?thesis
    by (auto simp: ConstantAllOnes_profile)
qed

text \<open>
  C3 as stated fails. With every match score 1 and the sequence \<open>A X\<close> (codes 0 and 26)
  the cell \<open>(1, 1)\<close> holds 1 and the cell \<open>(2, 2)\<close> holds 0, where the claim has
  \<open>max(0, DP(1, 1)) = 1\<close>.
\<close>

theorem compute_msv_skipped_residue_counterexample:
  "compute_msv (create_digital_sequence [0, 26]) 2
      (the (create_constant_score_profile 5 (Fin 1) get_test_alphabet))
      (the (DPMatrix_ctor 5 2)) (Fin 1) \<noteq> None \<and>
   vec_read (create_digital_sequence [0, 26]) 2 = Some 26 \<and>
   match_read (snd (snd (the (compute_msv (create_digital_sequence [0, 26]) 2
      (the (create_constant_score_profile 5 (Fin 1) get_test_alphabet))
      (the (DPMatrix_ctor 5 2)) (Fin 1))))) 1 1 = Some (Fin 1) \<and>
   match_read (snd (snd (the (compute_msv (create_digital_sequence [0, 26]) 2
      (the (create_constant_score_profile 5 (Fin 1) get_test_alphabet))
      (the (DPMatrix_ctor 5 2)) (Fin 1))))) 2 2 = Some (Fin 0) \<and>
   std_max (Fin 0) (Fin 1) = Fin 1"
proof -
  let ?p = "the (create_constant_score_profile 5 (Fin 1) get_test_alphabet)"
  let ?S = "create_digital_sequence [0, 26]"
  obtain score S' m' where run: "compute_msv ?S 2 ?p (the (DPMatrix_ctor 5 2)) (Fin 1) = Some (score, S', m')"
    by (rule skipped_run)
  have r1: "vec_read ?S 1 = Some 0" and r2: "vec_read ?S 2 = Some 26"
    by (simp_all add: vec_read_create_digital_sequence)
  have d: "0 < (2::int)" "0 < model_length ?p" "(2::int) \<le> 2" "model_length ?p \<le> 5"
    by (simp_all add: ConstantAllOnes_profile)
  have "match_read m' 1 1 = Some (msv_cell ?p ?S 1 1)"
    by (rule fresh_run_cells[OF run d]) (simp_all add: ConstantAllOnes_profile)
  moreover have "msv_cell ?p ?S 1 1 = Fin 1"
    using r1 dp_step_iter_sum[of 1 0] is_float_small(1)
    by (simp add: msv_cell.simps[of ?p ?S 1] msv_cell.simps[of ?p ?S 0] ConstantAllOnes_profile is_float_def)
  moreover have "match_read m' 2 2 = Some (Fin 0)"
    using skipped_row_zero[OF run _ _ r2] by (simp add: ConstantAllOnes_profile)
  ultimately show ?thesis using run r2 by simp
qed

section \<open>Raising one match score\<close>

lemma set_match_score_Some_iff:
  "set_match_score p k x v = Some p' \<longleftrightarrow>
     0 \<le> x \<and> x < int (length (rsc p)) \<and> 0 \<le> k * p7P_NR + p7P_MSC \<and>
     k * p7P_NR + p7P_MSC < int (length (rsc p ! nat x)) \<and>
     p' = p\<lparr>rsc := (rsc p)[nat x := (rsc p ! nat x)[nat (k * p7P_NR + p7P_MSC) := v]]\<rparr>"
  unfolding set_match_score_def vec_read_def vec_write_def
  by (auto split: bind_splits if_splits)

lemma match_score_None_iff:
  "match_score p k x = None \<longleftrightarrow>
     \<not> (0 \<le> x \<and> x < int (length (rsc p)) \<and> 0 \<le> k * p7P_NR + p7P_MSC \<and>
        k * p7P_NR + p7P_MSC < int (length (rsc p ! nat x)))"
  unfolding match_score_def vec_read_def
  by (auto split: bind_splits if_splits)

lemma set_match_score_None_iff: "set_match_score p k x v = None \<longleftrightarrow> match_score p k x = None"
  using set_match_score_Some_iff[of p k x v] match_score_None_iff[of p k x]
  by (cases "set_match_score p k x v") auto

lemma set_match_score_model_length:
  "set_match_score p k x v = Some p' \<Longrightarrow> model_length p' = model_length p"
  by (simp add: set_match_score_Some_iff)

lemma match_score_set_match_score:
  assumes "set_match_score p k x v = Some p'"
  shows "match_score p' k' x' = (if k' = k \<and> x' = x then Some v else match_score p k' x')"
proof -
  let ?j = "k * p7P_NR + p7P_MSC" and ?j' = "k' * p7P_NR + p7P_MSC"
  from assms have r: "0 \<le> x" "x < int (length (rsc p))" "0 \<le> ?j" "?j < int (length (rsc p ! nat x))"
    and d: "rsc p' = (rsc p)[nat x := (rsc p ! nat x)[nat ?j := v]]"
    by (simp_all add: set_match_score_Some_iff)
  have jj: "?j' = ?j \<longleftrightarrow> k' = k" by (simp add: hmmer_consts)
  show ?thesis
  proof (cases "0 \<le> x' \<and> x' < int (length (rsc p))")
    case False
    then show ?thesis using r by (auto simp: match_score_def vec_read_def d)
  next
    case True
    show ?thesis
    proof (cases "x' = x")
      case False
      with True have "nat x' \<noteq> nat x" using r by linarith
      then show ?thesis using True False by (simp add: match_score_def vec_read_def d)
    next
      case x: True
      show ?thesis
      proof (cases "0 \<le> ?j' \<and> ?j' < int (length (rsc p ! nat x))")
        case False
        then show ?thesis using r x jj by (auto simp: match_score_def vec_read_def d)
      next
        case True
        have "nat ?j = nat ?j' \<longleftrightarrow> k' = k" using True r jj by linarith
        then show ?thesis using True r x
          by (auto simp: match_score_def vec_read_def d nth_list_update)
      qed
    qed
  qed
qed

lemma grows_refl [simp]: "grows a a"
  by (simp add: grows_def)

lemma msv_cell_mono:
  assumes "\<And>k x. match_score p k x = None \<and> match_score p' k x = None \<or>
             (\<exists>a b. match_score p k x = Some a \<and> match_score p' k x = Some b \<and> grows a b)"
  shows "grows (msv_cell p S i k) (msv_cell p' S i k)"
proof (induction "nat i" arbitrary: i k)
  case 0
  then show ?case by (simp add: msv_cell.simps[of _ S i])
next
  case (Suc n)
  then have i: "0 < i" and n: "n = nat (i - 1)" by linarith+
  show ?case
  proof (cases "k \<le> 0")
    case True
    with i show ?thesis by (simp add: msv_cell.simps[of _ S i])
  next
    case k0: False
    show ?thesis
    proof (cases "vec_read S i")
      case None
      with i k0 show ?thesis by (simp add: msv_cell.simps[of _ S i])
    next
      case (Some r)
      show ?thesis
      proof (cases "20 \<le> uint r")
        case True
        with i k0 Some show ?thesis by (simp add: msv_cell.simps[of _ S i])
      next
        case False
        note IH = Suc.hyps(1)[OF n, of "k - 1"]
        from assms[of k "uint r"] show ?thesis
        proof (elim disjE conjE exE)
          assume "match_score p k (uint r) = None" "match_score p' k (uint r) = None"
          with i k0 Some False show ?thesis by (simp add: msv_cell.simps[of _ S i k])
        next
          fix a b assume ab: "match_score p k (uint r) = Some a" "match_score p' k (uint r) = Some b" "grows a b"
          from dp_step_mono[OF IH ab(3)]
          have "grows (dp_step (msv_cell p S (i - 1) (k - 1)) a) (dp_step (msv_cell p' S (i - 1) (k - 1)) b)"
            by (simp add: grows_def)
          with i k0 Some False ab show ?thesis by (simp add: msv_cell.simps[of _ S i k])
        qed
      qed
    qed
  qed
qed

lemma compute_msv_mono:
  assumes rel: "\<And>k x. match_score p k x = None \<and> match_score p' k x = None \<or>
             (\<exists>a b. match_score p k x = Some a \<and> match_score p' k x = Some b \<and> grows a b)"
    and ml: "model_length p' = model_length p"
    and run: "compute_msv S L p (the (DPMatrix_ctor Mx Lx)) e = Some (score, S1, m1)"
    and run': "compute_msv S L p' (the (DPMatrix_ctor Mx Lx)) e = Some (score', S2, m2)"
    and dims: "L \<le> Lx" "model_length p \<le> Mx"
    and fit: "Mx \<le> 715827881" "Lx \<le> 429496728"
  shows "fle score score'"
proof (cases "0 < L \<and> 0 < model_length p")
  case False
  with run run' ml show ?thesis by (auto simp: compute_msv_def)
next
  case True
  then have d: "0 < L" "0 < model_length p" "L \<le> Lx" "model_length p \<le> Mx"
    and d': "0 < L" "0 < model_length p'" "L \<le> Lx" "model_length p' \<le> Mx"
    using dims ml by auto
  from fresh_run_score(3)[OF run d fit] show ?thesis
  proof
    assume "score = Fin 0"
    with fresh_run_score(1)[OF run' d' fit] show ?thesis by simp
  next
    assume "\<exists>i k. 1 \<le> i \<and> i \<le> L \<and> 1 \<le> k \<and> k \<le> model_length p \<and> score = msv_cell p S i k"
    then obtain i k where ik: "1 \<le> i" "i \<le> L" "1 \<le> k" "k \<le> model_length p"
      and s: "score = msv_cell p S i k" by blast
    have le': "fle (msv_cell p' S i k) score'"
      using ik ml by (intro fresh_run_score(2)[OF run' d' fit]) auto
    from msv_cell_mono[of p p' S i k, OF rel] have "grows score (msv_cell p' S i k)" by (simp add: s)
    then show ?thesis using le' by (auto simp: grows_def intro: fle_trans)
  qed
qed

text \<open>
  C5: let one match score of the profile, at any position \<open>k\<close> and residue \<open>x\<close> of the
  table, be replaced by a value that is at least the old one, everything else being the
  same: the sequence, the other scores, the lengths, and a matrix fresh from the
  constructor with room for the call (of dimensions \<open>Mx \<le> 715827881\<close> and
  \<open>Lx \<le> 429496728\<close>, which the constructor builds in full). If both calls return, the score of the second is
  at least the score of the first. (Other scores of the profile may be anything, NaN
  and the infinities included.)
\<close>

theorem compute_msv_monotone:
  assumes "match_score p k x = Some v" "fle v v'" "set_match_score p k x v' = Some p'"
    and "compute_msv S L p (the (DPMatrix_ctor Mx Lx)) e = Some (score, S1, m1)"
    and "compute_msv S L p' (the (DPMatrix_ctor Mx Lx)) e = Some (score', S2, m2)"
    and "L \<le> Lx" "model_length p \<le> Mx" "Mx \<le> 715827881" "Lx \<le> 429496728"
  shows "fle score score'"
proof (rule compute_msv_mono[OF _ _ assms(4-9)])
  fix k' x'
  show "match_score p k' x' = None \<and> match_score p' k' x' = None \<or>
             (\<exists>a b. match_score p k' x' = Some a \<and> match_score p' k' x' = Some b \<and> grows a b)"
    using match_score_set_match_score[OF assms(3), of k' x'] assms(1,2)
    by (cases "match_score p k' x'") (auto simp: grows_def)
next
  show "model_length p' = model_length p" by (rule set_match_score_model_length[OF assms(3)])
qed

theorem compute_msv_monotone_witness:
  "\<exists>p' score score' S1 m1 S2 m2.
     match_score (the (create_constant_score_profile 5 (Fin 1) get_test_alphabet)) 2 3 = Some (Fin 1) \<and>
     fle (Fin 1) (Fin 4) \<and>
     set_match_score (the (create_constant_score_profile 5 (Fin 1) get_test_alphabet)) 2 3 (Fin 4) = Some p' \<and>
     compute_msv (create_digital_sequence [0, 1, 2, 3, 4]) 5
       (the (create_constant_score_profile 5 (Fin 1) get_test_alphabet))
       (the (DPMatrix_ctor 5 5)) (Fin 1) = Some (score, S1, m1) \<and>
     compute_msv (create_digital_sequence [0, 1, 2, 3, 4]) 5 p' (the (DPMatrix_ctor 5 5)) (Fin 1)
       = Some (score', S2, m2) \<and>
     fle score score'"
proof -
  let ?p = "the (create_constant_score_profile 5 (Fin 1) get_test_alphabet)"
  let ?S = "create_digital_sequence [0, 1, 2, 3, 4]"
  have v: "match_score ?p 2 3 = Some (Fin 1)" by (simp add: ConstantAllOnes_profile)
  then obtain p' where p': "set_match_score ?p 2 3 (Fin 4) = Some p'"
    using set_match_score_None_iff[of ?p 2 3 "Fin 4"] by (cases "set_match_score ?p 2 3 (Fin 4)") auto
  have ml: "model_length p' = 5"
    using set_match_score_model_length[OF p'] by (simp add: ConstantAllOnes_profile)
  from ConstantAllOnes_returns obtain score S1 m1 where
    run: "compute_msv ?S 5 ?p (the (DPMatrix_ctor 5 5)) (Fin 1) = Some (score, S1, m1)" by blast
  have "\<exists>score' S2 m2. compute_msv ?S 5 p' (the (DPMatrix_ctor 5 5)) (Fin 1) = Some (score', S2, m2)"
  proof (rule fresh_run_returns)
    fix i :: int assume i: "1 \<le> i" "i \<le> 5"
    have "\<exists>r. vec_read ?S i = Some r \<and> uint r < 20"
      using i by (intro canonical_create_digital_sequence) auto
    then show "\<exists>r. vec_read ?S i = Some r \<and>
           (uint r < 20 \<longrightarrow> (\<forall>k. 1 \<le> k \<and> k \<le> model_length p' \<longrightarrow> match_score p' k (uint r) \<noteq> None))"
      by (auto simp: ml match_score_set_match_score[OF p'] ConstantAllOnes_profile)
  qed (simp_all add: ml)
  then obtain score' S2 m2 where
    run': "compute_msv ?S 5 p' (the (DPMatrix_ctor 5 5)) (Fin 1) = Some (score', S2, m2)" by blast
  have le: "fle (Fin 1) (Fin 4)" by simp
  have "fle score score'"
    by (rule compute_msv_monotone[OF v le p' run run']) (simp_all add: ConstantAllOnes_profile)
  with v le p' run run' show ?thesis by blast
qed

section \<open>What the score depends on\<close>

lemma score_row_cong:
  assumes "\<And>k'. k \<le> k' \<Longrightarrow> k' \<le> M \<Longrightarrow> match_score p' k' (uint r) = match_score p k' (uint r)"
  shows "score_row p' r i k M (m, s) = score_row p r i k M (m, s)"
  using assms
proof (induction "nat (M + 1 - k)" arbitrary: k m s)
  case 0
  then have "\<not> k \<le> M" by simp
  then show ?case by (simp add: score_row.simps[of _ r i k])
next
  case (Suc n)
  then have le: "k \<le> M" by simp
  from Suc.hyps(2) have n: "n = nat (M + 1 - (k + 1))" by simp
  have ms: "match_score p' k (uint r) = match_score p k (uint r)" using Suc.prems[of k] le by simp
  have IH: "score_row p' r i (k + 1) M (m1, s1) = score_row p r i (k + 1) M (m1, s1)" for m1 s1
    using Suc.prems by (intro Suc.hyps(1)[OF n]) auto
  show ?case
    by (simp add: score_row.simps[of _ r i k] ms IH Let_def cong: Option.bind_cong)
qed

lemma fill_rows_cong:
  assumes "\<And>i'. i \<le> i' \<Longrightarrow> i' \<le> L \<Longrightarrow> vec_read S' i' = vec_read S i'"
    and "\<And>k x. 1 \<le> k \<Longrightarrow> k \<le> M \<Longrightarrow> 0 \<le> x \<Longrightarrow> x < 20 \<Longrightarrow> match_score p' k x = match_score p k x"
  shows "map_option snd (fill_rows p' i L M (S', m, s)) = map_option snd (fill_rows p i L M (S, m, s))"
  using assms(1)
proof (induction "nat (L + 1 - i)" arbitrary: i m s)
  case 0
  then have "\<not> i \<le> L" by simp
  then show ?case by (simp add: fill_rows.simps[of _ i])
next
  case (Suc n)
  then have le: "i \<le> L" by simp
  from Suc.hyps(2) have n: "n = nat (L + 1 - (i + 1))" by simp
  have rd: "vec_read S' i = vec_read S i" using Suc.prems[of i] le by simp
  have IH: "map_option snd (fill_rows p' (i + 1) L M (S', m1, s1))
            = map_option snd (fill_rows p (i + 1) L M (S, m1, s1))" for m1 s1
    using Suc.prems by (intro Suc.hyps(1)[OF n]) auto
  show ?case
  proof (cases "vec_read S i")
    case None
    with rd le show ?thesis by (simp add: fill_rows.simps[of _ i])
  next
    case (Some r)
    show ?thesis
    proof (cases "20 \<le> uint r")
      case True
      show ?thesis
      proof (cases "zero_row i 1 M m")
        case None
        with rd le Some True show ?thesis by (simp add: fill_rows.simps[of _ i])
      next
        case (Some m1)
        with rd le \<open>vec_read S i = Some r\<close> True IH[of m1 s] show ?thesis
          by (simp add: fill_rows.simps[of _ i])
      qed
    next
      case False
      have sr: "score_row p' r i 1 M (m, s) = score_row p r i 1 M (m, s)"
        using False by (intro score_row_cong assms(2)) auto
      show ?thesis
      proof (cases "score_row p r i 1 M (m, s)")
        case None
        with rd le Some False sr show ?thesis by (simp add: fill_rows.simps[of _ i])
      next
        case (Some a)
        obtain m1 s1 where a: "a = (m1, s1)" by (cases a)
        with Some rd le \<open>vec_read S i = Some r\<close> False sr IH[of m1 s1] show ?thesis
          by (simp add: fill_rows.simps[of _ i])
      qed
    qed
  qed
qed

lemma compute_msv_cong:
  assumes "model_length p' = model_length p"
    and "\<And>k x. 1 \<le> k \<Longrightarrow> k \<le> model_length p \<Longrightarrow> 0 \<le> x \<Longrightarrow> x < 20 \<Longrightarrow> match_score p' k x = match_score p k x"
    and "\<And>i. 1 \<le> i \<Longrightarrow> i \<le> L \<Longrightarrow> vec_read S' i = vec_read S i"
  shows "map_option (\<lambda>(score, S, m). (score, m)) (compute_msv S' L p' m e')
         = map_option (\<lambda>(score, S, m). (score, m)) (compute_msv S L p m e)"
proof (cases "0 < L \<and> 0 < model_length p")
  case False
  then show ?thesis using assms(1) by (auto simp: compute_msv_def)
next
  case True
  let ?M = "model_length p"
  show ?thesis
  proof (cases "zero_row 0 0 ?M m")
    case None
    with True assms(1) show ?thesis by (simp add: compute_msv_def Let_def)
  next
    case (Some m0)
    have eq: "map_option snd (fill_rows p' 1 L ?M (S', m0, Fin 0)) = map_option snd (fill_rows p 1 L ?M (S, m0, Fin 0))"
      using assms(2,3) by (intro fill_rows_cong) auto
    show ?thesis
    proof (cases "fill_rows p 1 L ?M (S, m0, Fin 0)")
      case None
      with eq have "fill_rows p' 1 L ?M (S', m0, Fin 0) = None" by simp
      with None True Some assms(1) show ?thesis by (simp add: compute_msv_def Let_def)
    next
      case b: (Some b)
      with eq obtain b' where b': "fill_rows p' 1 L ?M (S', m0, Fin 0) = Some b'" "snd b' = snd b"
        by (cases "fill_rows p' 1 L ?M (S', m0, Fin 0)") auto
      then show ?thesis using True Some assms(1) b
        by (cases b; cases b') (simp add: compute_msv_def Let_def)
    qed
  qed
qed

lemma compute_msv_two_matrices:
  assumes run: "compute_msv S L p m e = Some (s1, S1, m1)"
    and run': "compute_msv S' L p' n e' = Some (s2, S2, m2)"
    and ml: "model_length p' = model_length p"
    and sc: "\<And>k x. 1 \<le> k \<Longrightarrow> k \<le> model_length p \<Longrightarrow> 0 \<le> x \<Longrightarrow> x < 20 \<Longrightarrow> match_score p' k x = match_score p k x"
    and seq: "\<And>i. 1 \<le> i \<Longrightarrow> i \<le> L \<Longrightarrow> vec_read S' i = vec_read S i"
    and col: "\<And>i. 1 \<le> i \<Longrightarrow> i < L \<Longrightarrow> match_read n i 0 = match_read m i 0"
  shows "s2 = s1"
proof (cases "0 < L \<and> 0 < model_length p")
  case False
  with run run' ml show ?thesis by (auto simp: compute_msv_def)
next
  case True
  let ?M = "model_length p"
  from True ml have d: "0 < L" "0 < ?M" and d': "0 < L" "0 < model_length p'" by simp_all
  have cells: "match_read m2 i k = match_read m1 i k"
    if "0 \<le> i" "i \<le> L" "0 \<le> k" "k \<le> ?M" "i < L \<or> 1 \<le> k" for i k
    using that
  proof (induction "nat i" arbitrary: i k)
    case 0
    then have "i = 0" by simp
    with compute_msv_row0[OF run d "0.prems"(3,4)] compute_msv_row0[OF run' d', of k] "0.prems" ml
    show ?case by simp
  next
    case (Suc j)
    then have i: "1 \<le> i" and j: "j = nat (i - 1)" by linarith+
    show ?case
    proof (cases "k = 0")
      case True
      with Suc.prems have "i < L" by simp
      from col[OF i this] compute_msv_column0[OF run i] compute_msv_column0[OF run' i] True
      show ?thesis by simp
    next
      case False
      with Suc.prems have k: "1 \<le> k" by simp
      have k': "k \<le> model_length p'" using Suc.prems ml by simp
      have below: "match_read m2 (i - 1) (k - 1) = match_read m1 (i - 1) (k - 1)"
        using Suc.prems i k by (intro Suc.hyps(1)[OF j]) auto
      from run i \<open>i \<le> L\<close> k \<open>k \<le> ?M\<close> show ?thesis
      proof (rule compute_msv_cell)
        fix r assume r: "vec_read S i = Some r" "20 \<le> uint r" and c1: "match_read m1 i k = Some (Fin 0)"
        from r seq[OF i \<open>i \<le> L\<close>] have r': "vec_read S' i = Some r" by simp
        from run' i \<open>i \<le> L\<close> k k' have "match_read m2 i k = Some (Fin 0)"
          by (rule compute_msv_cell) (use r r' in auto)
        with c1 show ?thesis by simp
      next
        fix r ms prev
        assume r: "vec_read S i = Some r" "uint r < 20" and ms: "match_score p k (uint r) = Some ms"
          and prev: "match_read m1 (i - 1) (k - 1) = Some prev"
          and c1: "match_read m1 i k = Some (dp_step prev ms)"
        from r seq[OF i \<open>i \<le> L\<close>] have r': "vec_read S' i = Some r" by simp
        have ms': "match_score p' k (uint r) = Some ms"
          using sc[of k "uint r"] k Suc.prems r ms by simp
        from run' i \<open>i \<le> L\<close> k k' have "match_read m2 i k = Some (dp_step prev ms)"
          by (rule compute_msv_cell) (use r r' ms' prev below in auto)
        with c1 show ?thesis by simp
      qed
    qed
  qed
  note a = compute_msv_score[OF run d] and b = compute_msv_score[OF run' d']
  have "fle s1 s2"
    using a(3)
  proof
    assume "s1 = Fin 0" with b(1) show ?thesis by simp
  next
    assume "\<exists>i k. 1 \<le> i \<and> i \<le> L \<and> 1 \<le> k \<and> k \<le> ?M \<and> match_read m1 i k = Some s1"
    then obtain i k where ik: "1 \<le> i" "i \<le> L" "1 \<le> k" "k \<le> ?M" and s: "match_read m1 i k = Some s1"
      by blast
    from b(2)[of i k] ik ml obtain v where "match_read m2 i k = Some v" "fle v s2" by auto
    with cells[of i k] ik s show ?thesis by simp
  qed
  moreover have "fle s2 s1"
    using b(3)
  proof
    assume "s2 = Fin 0" with a(1) show ?thesis by simp
  next
    assume "\<exists>i k. 1 \<le> i \<and> i \<le> L \<and> 1 \<le> k \<and> k \<le> model_length p' \<and> match_read m2 i k = Some s2"
    then obtain i k where ik: "1 \<le> i" "i \<le> L" "1 \<le> k" "k \<le> ?M" and s: "match_read m2 i k = Some s2"
      using ml by auto
    from a(2)[OF ik] obtain v where "match_read m1 i k = Some v" "fle v s1" by auto
    with cells[of i k] ik s show ?thesis by simp
  qed
  ultimately show ?thesis by (intro fle_antisym)
qed

text \<open>
  C10, as the code has it. Besides the arguments that the claim names, the score depends
  on the matrix passed in: for the cell \<open>(i + 1, 1)\<close> the call reads the match cell
  \<open>(i, 0)\<close>, \<open>1 \<le> i < L\<close>, which it never stores. Let two calls have the same \<open>L\<close>,
  profiles of the same model length with the same match scores \<open>\<mu>(k, r)\<close> for \<open>k\<close> in
  \<open>[1, M]\<close> and \<open>r\<close> in \<open>[0, 20)\<close>, sequences that agree at the positions \<open>1..L\<close>, and
  matrices \<open>m\<close> and \<open>n\<close> that agree at the match cells \<open>(i, 0)\<close>, \<open>1 \<le> i < L\<close>. If both
  return, they return the same score; and on one and the same matrix they return the
  same score or both do not return. Nothing else is compared: the transition and insert
  scores, the special transitions, the other fields of the profile, its alphabet (and so
  its \<open>K\<close>: the test is against the literal 20), the match scores of the residues from
  20 on, the sentinels, \<open>expected_hit_count\<close>, and the other cells and the dimensions of
  the matrices may all differ.
\<close>

theorem compute_msv_depends_only_on:
  assumes "model_length p' = model_length p"
    and "\<forall>k\<in>{1..model_length p}. \<forall>x\<in>{0..<20}. match_score p' k x = match_score p k x"
    and "\<forall>i\<in>{1..L}. vec_read S' i = vec_read S i"
    and "\<forall>i\<in>{1..L - 1}. match_read n i 0 = match_read m i 0"
  shows "(compute_msv S L p m e = Some (s1, S1, m1) \<and> compute_msv S' L p' n e' = Some (s2, S2, m2)
            \<longrightarrow> s2 = s1) \<and>
         map_option fst (compute_msv S' L p' m e') = map_option fst (compute_msv S L p m e)"
proof
  show "compute_msv S L p m e = Some (s1, S1, m1) \<and> compute_msv S' L p' n e' = Some (s2, S2, m2)
            \<longrightarrow> s2 = s1"
  proof
    assume "compute_msv S L p m e = Some (s1, S1, m1) \<and> compute_msv S' L p' n e' = Some (s2, S2, m2)"
    then have run: "compute_msv S L p m e = Some (s1, S1, m1)"
      and run': "compute_msv S' L p' n e' = Some (s2, S2, m2)" by simp_all
    show "s2 = s1"
      using assms by (intro compute_msv_two_matrices[OF run run']) auto
  qed
  have "map_option (\<lambda>(score, S, m). (score, m)) (compute_msv S' L p' m e')
         = map_option (\<lambda>(score, S, m). (score, m)) (compute_msv S L p m e)"
    using assms(1-3) by (intro compute_msv_cong) auto
  then have "map_option fst (map_option (\<lambda>(score, S, m). (score, m)) (compute_msv S' L p' m e'))
         = map_option fst (map_option (\<lambda>(score, S, m). (score, m)) (compute_msv S L p m e))"
    by simp
  then show "map_option fst (compute_msv S' L p' m e') = map_option fst (compute_msv S L p m e)"
    by (simp add: option.map_comp comp_def case_prod_unfold)
qed

theorem compute_msv_depends_only_on_witness:
  "(\<exists>s1 S1 m1 s2 S2 m2.
      compute_msv (create_digital_sequence [0, 1, 2, 3, 4]) 5
        (the (create_constant_score_profile 5 (Fin 1) get_test_alphabet))
        (the (DPMatrix_ctor 5 5)) (Fin 1) = Some (s1, S1, m1) \<and>
      compute_msv (0 # [0, 1, 2, 3, 4] @ [7]) 5
        ((the (create_constant_score_profile 5 (Fin 1) get_test_alphabet))
           \<lparr>tsc := [], rsc := (rsc (the (create_constant_score_profile 5 (Fin 1) get_test_alphabet)))[25 := []],
            xsc := [[NaN]], mode := 3, nj := PInf,
            abc := get_test_alphabet\<lparr>K := 4\<rparr>, name := ''other''\<rparr>)
        (the (DPMatrix_ctor 7 6)) NaN = Some (s2, S2, m2) \<and>
      s2 = s1) \<and>
   map_option fst
     (compute_msv (0 # [0, 1, 2, 3, 4] @ [7]) 5
        ((the (create_constant_score_profile 5 (Fin 1) get_test_alphabet))
           \<lparr>tsc := [], rsc := (rsc (the (create_constant_score_profile 5 (Fin 1) get_test_alphabet)))[25 := []],
            xsc := [[NaN]], mode := 3, nj := PInf,
            abc := get_test_alphabet\<lparr>K := 4\<rparr>, name := ''other''\<rparr>)
        (the (DPMatrix_ctor 5 5)) NaN)
   = map_option fst
     (compute_msv (create_digital_sequence [0, 1, 2, 3, 4]) 5
        (the (create_constant_score_profile 5 (Fin 1) get_test_alphabet))
        (the (DPMatrix_ctor 5 5)) (Fin 1))"
proof -
  let ?p = "the (create_constant_score_profile 5 (Fin 1) get_test_alphabet)"
  let ?q = "?p\<lparr>tsc := [], rsc := (rsc ?p)[25 := []], xsc := [[NaN]], mode := 3, nj := PInf,
            abc := get_test_alphabet\<lparr>K := 4\<rparr>, name := ''other''\<rparr>"
  let ?S = "create_digital_sequence [0, 1, 2, 3, 4]"
  let ?T = "0 # [0, 1, 2, 3, 4] @ [7] :: 8 word list"
  have len: "length (rsc ?p) = 29"
    using ConstantAllOnes_profile_value by (auto split: option.splits)
  have ml: "model_length ?q = model_length ?p" by simp
  have sc: "\<forall>k\<in>{1..model_length ?p}. \<forall>x\<in>{0..<20}. match_score ?q k x = match_score ?p k x"
    by (auto simp: match_score_def vec_read_def len nat_less_iff)
  have seq: "\<forall>i\<in>{1..5}. vec_read ?T i = vec_read ?S i"
    by (auto simp: vec_read_def create_digital_sequence_def nth_Cons' nth_append)
  have col: "\<forall>i\<in>{1..5 - 1}. match_read (the (DPMatrix_ctor 7 6)) i 0 = match_read (the (DPMatrix_ctor 5 5)) i 0"
    by (simp add: match_read_fresh)
  from ConstantAllOnes_returns obtain s1 S1 m1 where
    run: "compute_msv ?S 5 ?p (the (DPMatrix_ctor 5 5)) (Fin 1) = Some (s1, S1, m1)" by blast
  have "\<exists>s2 S2 m2. compute_msv ?T 5 ?q (the (DPMatrix_ctor 7 6)) NaN = Some (s2, S2, m2)"
  proof (rule fresh_run_returns)
    fix i :: int assume i: "1 \<le> i" "i \<le> 5"
    have eq: "vec_read ?T i = vec_read ?S i" using bspec[OF seq, of i] i by simp
    have "\<exists>r. vec_read ?S i = Some r \<and> uint r < 20"
      using i by (intro canonical_create_digital_sequence) auto
    then have "\<exists>r. vec_read ?T i = Some r \<and> uint r < 20" unfolding eq .
    then show "\<exists>r. vec_read ?T i = Some r \<and>
           (uint r < 20 \<longrightarrow> (\<forall>k. 1 \<le> k \<and> k \<le> model_length ?q \<longrightarrow> match_score ?q k (uint r) \<noteq> None))"
      using sc by (auto simp: ConstantAllOnes_profile)
  qed (simp_all add: ConstantAllOnes_profile)
  then obtain s2 S2 m2 where
    run': "compute_msv ?T 5 ?q (the (DPMatrix_ctor 7 6)) NaN = Some (s2, S2, m2)" by blast
  note inst = compute_msv_depends_only_on[where e = "Fin 1" and e' = NaN and ?s1.0 = s1 and ?s2.0 = s2
      and ?S1.0 = S1 and ?S2.0 = S2 and ?m1.0 = m1 and ?m2.0 = m2, OF ml sc seq col]
  from inst run run' have "s2 = s1" by blast
  with run run' inst show ?thesis by blast
qed

lemma stale_steps:
  "dp_step (Fin 0) (Fin 1) = Fin 1" "dp_step (Fin 1) (Fin 1) = Fin 2"
  "dp_step (Fin 100) (Fin 1) = Fin 101"
  by (simp_all add: dp_step_Fin std_max_def rnd32_def rnd_val_def expo_def
        round_even_def Let_def eval_nat_numeral)

text \<open>
  C10 as stated fails: the score depends on the matrix. With every match score 1,
  \<open>M = 5\<close>, \<open>L = 2\<close> and the sequence \<open>A A\<close>, the call returns 2 on the matrix that
  \<open>DPMatrix(5, 2)\<close> has built, and 101 on the same matrix with the cell \<open>match(1, 0)\<close>
  set to 100: every argument that the claim names is the same in the two calls.
\<close>

theorem compute_msv_depends_on_matrix_counterexample:
  "map_option fst (compute_msv (create_digital_sequence [0, 0]) 2
      (the (create_constant_score_profile 5 (Fin 1) get_test_alphabet))
      (the (DPMatrix_ctor 5 2)) (Fin 1)) = Some (Fin 2) \<and>
   match_write (the (DPMatrix_ctor 5 2)) 1 0 (Fin 100) \<noteq> None \<and>
   map_option fst (compute_msv (create_digital_sequence [0, 0]) 2
      (the (create_constant_score_profile 5 (Fin 1) get_test_alphabet))
      (the (match_write (the (DPMatrix_ctor 5 2)) 1 0 (Fin 100))) (Fin 1)) = Some (Fin 101)"
proof -
  let ?p = "the (create_constant_score_profile 5 (Fin 1) get_test_alphabet)"
  let ?S = "create_digital_sequence [0, 0]"
  let ?m0 = "the (DPMatrix_ctor 5 2)"
  have rs: "vec_read ?S i = Some 0" if "1 \<le> i" "i \<le> 2" for i
  proof -
    from that have "i = 1 \<or> i = 2" by auto
    then show ?thesis by (auto simp: vec_read_create_digital_sequence)
  qed
  have "\<exists>S' m'. compute_msv ?S 2 ?p (the (DPMatrix_ctor (model_length ?p) 2)) (Fin 1)
          = Some (iter_sum (nat (min (model_length ?p) 2)) 1, S', m')"
  proof (rule compute_msv_constant)
    fix i :: int assume "1 \<le> i" "i \<le> 2"
    from rs[OF this] show "\<exists>r. vec_read ?S i = Some r \<and> uint r < 20" by simp
  qed (simp_all add: ConstantAllOnes_profile is_float_small)
  moreover have "iter_sum 2 1 = Fin 2"
    by (simp add: eval_nat_numeral rnd32_def rnd_val_def expo_def round_even_def Let_def)
  ultimately have fresh_score: "map_option fst (compute_msv ?S 2 ?p ?m0 (Fin 1)) = Some (Fin 2)"
    by (auto simp: ConstantAllOnes_profile)
  have fresh: "match_read ?m0 i k = (if 0 \<le> i \<and> i \<le> 2 \<and> 0 \<le> k \<and> k \<le> 5 then Some NInf else None)" for i k
    by (rule match_read_fresh) simp_all
  obtain m where w: "match_write ?m0 1 0 (Fin 100) = Some m"
    using match_write_None_iff[of ?m0 1 0 "Fin 100"] by (cases "match_write ?m0 1 0 (Fin 100)") (auto simp: fresh)
  note rd = match_read_match_write[OF w]
  have "compute_msv ?S 2 ?p m (Fin 1) \<noteq> None"
  proof (rule compute_msv_returns)
    fix i k :: int assume "0 \<le> i" "i \<le> 2" "0 \<le> k" "k \<le> model_length ?p"
    then show "match_read m i k \<noteq> None" by (simp add: rd fresh ConstantAllOnes_profile)
  next
    fix i :: int assume i: "1 \<le> i" "i \<le> 2"
    from rs[OF this] show "\<exists>r. vec_read ?S i = Some r \<and>
           (uint r < 20 \<longrightarrow> (\<forall>k. 1 \<le> k \<and> k \<le> model_length ?p \<longrightarrow> match_score ?p k (uint r) \<noteq> None))"
      by (auto simp: ConstantAllOnes_profile)
  qed
  then obtain score S' m' where run: "compute_msv ?S 2 ?p m (Fin 1) = Some (score, S', m')" by auto
  have d: "0 < (2::int)" "0 < model_length ?p" by (simp_all add: ConstantAllOnes_profile)
  have step: "match_read m' i k = Some (dp_step prev (Fin 1))"
    if "1 \<le> i" "i \<le> 2" "1 \<le> k" "k \<le> 5" "match_read m' (i - 1) (k - 1) = Some prev" for i k prev
  proof -
    have k: "k \<le> model_length ?p" using that by (simp add: ConstantAllOnes_profile)
    from run that(1,2,3) k show ?thesis
    proof (rule compute_msv_cell)
      fix r assume "vec_read ?S i = Some r" "20 \<le> uint r"
      with rs[OF that(1,2)] show ?thesis by simp
    next
      fix r ms prev'
      assume "vec_read ?S i = Some r" "uint r < 20" "match_score ?p k (uint r) = Some ms"
        "match_read m' (i - 1) (k - 1) = Some prev'" "match_read m' i k = Some (dp_step prev' ms)"
      with rs[OF that(1,2)] that show ?thesis by (simp add: ConstantAllOnes_profile)
    qed
  qed
  have row1: "match_read m' 1 k = Some (Fin 1)" if "1 \<le> k" "k \<le> 5" for k
  proof -
    have "match_read m' (1 - 1) (k - 1) = Some (Fin 0)"
      using compute_msv_row0[OF run d, of "k - 1"] that by (simp add: ConstantAllOnes_profile)
    from step[OF _ _ that this] show ?thesis by (simp add: stale_steps)
  qed
  have c21: "match_read m' 2 1 = Some (Fin 101)"
  proof -
    have "match_read m' (2 - 1) (1 - 1) = Some (Fin 100)"
      using compute_msv_column0[OF run, of 1] by (simp add: rd)
    from step[OF _ _ _ _ this] show ?thesis by (simp add: stale_steps)
  qed
  have row2: "match_read m' 2 k = Some (Fin 2)" if "2 \<le> k" "k \<le> 5" for k
  proof -
    have "match_read m' (2 - 1) (k - 1) = Some (Fin 1)"
      using row1[of "k - 1"] that by simp
    from step[OF _ _ _ _ this] that show ?thesis by (simp add: stale_steps)
  qed
  have lower: "fle (Fin 101) score"
    using compute_msv_score(2)[OF run d, of 2 1] c21 by (simp add: ConstantAllOnes_profile)
  have upper: "fle score (Fin 101)"
    using compute_msv_score(3)[OF run d]
  proof
    assume "score = Fin 0" then show ?thesis by simp
  next
    assume "\<exists>i k. 1 \<le> i \<and> i \<le> 2 \<and> 1 \<le> k \<and> k \<le> model_length ?p \<and> match_read m' i k = Some score"
    then obtain i k where ik: "1 \<le> i" "i \<le> 2" "1 \<le> k" "k \<le> 5"
      and s: "match_read m' i k = Some score" by (auto simp: ConstantAllOnes_profile)
    from ik consider "i = 1" | "i = 2" "k = 1" | "i = 2" "2 \<le> k" by linarith
    then show ?thesis
    proof cases
      case 1 with row1[OF ik(3,4)] s show ?thesis by auto
    next
      case 2 with c21 s show ?thesis by auto
    next
      case 3 with row2[OF 3(2) ik(4)] s show ?thesis by auto
    qed
  qed
  from upper lower have "score = Fin 101" by (rule fle_antisym)
  with run w fresh_score show ?thesis by simp
qed

section \<open>The alphabet constructor\<close>

lemma AminoAcidAlphabet_ctor_value:
  "AminoAcidAlphabet_ctor = Some
     \<lparr> K = 20, Kp = 29, type_abc = 0, sym_abc = ''ACDEFGHIKLMNPQRSTVWY-BJZOUX*~'',
       inmap = replicate 42 254 @ [27, 254, 254, 20] @ replicate 19 254 @
               [0, 21, 1, 2, 3, 4, 5, 6, 7, 22, 8, 9, 10, 11, 24, 12, 13, 14, 15, 16, 25, 17, 18, 26, 19, 23] @
               replicate 35 254 @ [28, 254],
       ndegen = replicate 20 1 @ replicate 6 0 @ [20, 0, 0],
       degen = map (\<lambda>n. if n div 20 = n mod 20 then 1 else 0) [0..<400] @
               replicate 120 0 @ replicate 20 1 @ replicate 40 0 \<rparr>"
  by code_simp

lemma vec_read_append:
  "vec_read (xs @ ys) i = (if i < int (length xs) then vec_read xs i else vec_read ys (i - int (length xs)))"
  by (auto simp: vec_read_def nth_append nat_diff_distrib)

lemma vec_read_Cons:
  "vec_read (x # xs) i = (if i = 0 then Some x else vec_read xs (i - 1))"
  by (auto simp: vec_read_def nth_Cons' nat_diff_distrib)

lemma vec_read_Nil [simp]: "vec_read [] i = None"
  by (simp add: vec_read_def)

lemma vec_read_map_upt:
  "vec_read (map f [0..<n]) i = (if 0 \<le> i \<and> i < int n then Some (f (nat i)) else None)"
  by (auto simp: vec_read_def)

lemma degen_index:
  assumes "0 \<le> x" "0 \<le> y" "y < 20"
  shows "nat (x * 20 + y) div 20 = nat x" "nat (x * 20 + y) mod 20 = nat y"
proof -
  have "nat (x * 20 + y) = nat y + nat x * 20"
    using assms by (simp add: nat_add_distrib nat_mult_distrib)
  then show "nat (x * 20 + y) div 20 = nat x" "nat (x * 20 + y) mod 20 = nat y"
    using assms by simp_all
qed

lemmas vec_read_table = vec_read_append vec_read_Cons vec_read_replicate vec_read_map_upt

lemma canonical_rows:
  assumes a: "AminoAcidAlphabet_ctor = Some a" and x: "0 \<le> x" "x < 20" and y: "0 \<le> y" "y < 20"
  shows "vec_read (ndegen a) x = Some 1" "get_degen a x y = Some (if y = x then 1 else 0)"
proof -
  show "vec_read (ndegen a) x = Some 1"
    using a x unfolding AminoAcidAlphabet_ctor_value by (auto simp: vec_read_table)
  have "nat y = nat x \<longleftrightarrow> y = x" using x y by linarith
  then show "get_degen a x y = Some (if y = x then 1 else 0)"
    using a x y degen_index[of x y] unfolding AminoAcidAlphabet_ctor_value
    by (auto simp: get_degen_def vec_read_table)
qed

lemma wildcard_count:
  assumes a: "AminoAcidAlphabet_ctor = Some a"
  shows "vec_read (ndegen a) 26 = Some 20"
  using a unfolding AminoAcidAlphabet_ctor_value
  by (auto simp: vec_read_table)

lemma wildcard_row:
  assumes a: "AminoAcidAlphabet_ctor = Some a" and y: "0 \<le> y" "y < 20"
  shows "get_degen a 26 y = Some 1"
  using a y unfolding AminoAcidAlphabet_ctor_value
  by (auto simp: get_degen_def vec_read_table)

lemma ndegen_literal:
  "\<forall>x\<in>{20..<29::int}. x \<noteq> 26 \<longrightarrow> vec_read (replicate 20 1 @ replicate 6 0 @ [20, 0, 0::int]) x = Some 0"
  by code_simp

lemma other_counts:
  assumes a: "AminoAcidAlphabet_ctor = Some a" and x: "20 \<le> x" "x < 29" "x \<noteq> 26"
  shows "vec_read (ndegen a) x = Some 0"
proof -
  from a have "ndegen a = replicate 20 1 @ replicate 6 0 @ [20, 0, 0]"
    unfolding AminoAcidAlphabet_ctor_value by auto
  with ndegen_literal x show ?thesis by simp
qed

lemma other_rows:
  assumes a: "AminoAcidAlphabet_ctor = Some a" and x: "20 \<le> x" "x < 29" "x \<noteq> 26" and y: "0 \<le> y" "y < 20"
  shows "get_degen a x y = Some 0"
  using a x y unfolding AminoAcidAlphabet_ctor_value
  by (auto simp: get_degen_def vec_read_table)

lemma symbols_literal:
  "\<forall>x\<in>{0..<20::int}. (case vec_read ''ACDEFGHIKLMNPQRSTVWY-BJZOUX*~'' x of None \<Rightarrow> False
      | Some c \<Rightarrow> vec_read
      (replicate 42 254 @ [27, 254, 254, 20] @ replicate 19 254 @
       [0, 21, 1, 2, 3, 4, 5, 6, 7, 22, 8, 9, 10, 11, 24, 12, 13, 14, 15, 16, 25, 17, 18, 26, 19, 23] @
       replicate 35 254 @ [28, 254]) (int_of_char c) = Some x)"
  by code_simp

lemma symbols_map_back:
  assumes a: "AminoAcidAlphabet_ctor = Some a" and x: "0 \<le> x" "x < 20"
  shows "\<exists>c. vec_read (sym_abc a) x = Some c \<and> vec_read (inmap a) (int_of_char c) = Some x"
proof -
  from a have "sym_abc a = ''ACDEFGHIKLMNPQRSTVWY-BJZOUX*~''" "inmap a =
      (replicate 42 254 @ [27, 254, 254, 20] @ replicate 19 254 @
       [0, 21, 1, 2, 3, 4, 5, 6, 7, 22, 8, 9, 10, 11, 24, 12, 13, 14, 15, 16, 25, 17, 18, 26, 19, 23] @
       replicate 35 254 @ [28, 254])"
    unfolding AminoAcidAlphabet_ctor_value by auto
  moreover from x have "x \<in> {0..<20}" by simp
  ultimately show ?thesis
    using symbols_literal[THEN bspec, of x] by (simp split: option.splits)
qed

lemma symbol_codes:
  "int_of_char ` set ''ACDEFGHIKLMNPQRSTVWY-BJZOUX*~'' =
     {65, 67, 68, 69, 70, 71, 72, 73, 75, 76, 77, 78, 80, 81, 82, 83, 84, 86, 87, 89, 45,
      66, 74, 90, 79, 85, 88, 42, 126}"
  by (simp add: int_of_char_def)

lemma unmapped_literal:
  "\<forall>c\<in>{0..<128::int}. c \<in> {65, 67, 68, 69, 70, 71, 72, 73, 75, 76, 77, 78, 80, 81, 82, 83, 84, 86, 87, 89, 45,
      66, 74, 90, 79, 85, 88, 42, 126} \<or> vec_read
      (replicate 42 254 @ [27, 254, 254, 20] @ replicate 19 254 @
       [0, 21, 1, 2, 3, 4, 5, 6, 7, 22, 8, 9, 10, 11, 24, 12, 13, 14, 15, 16, 25, 17, 18, 26, 19, 23] @
       replicate 35 254 @ [28, 254]) c = Some (254::int)"
  by code_simp

lemma unmapped_codes:
  assumes a: "AminoAcidAlphabet_ctor = Some a" and c: "0 \<le> c" "c < 128"
    and n: "c \<notin> int_of_char ` set (sym_abc a)"
  shows "vec_read (inmap a) c = Some (uint digitalResidueIllegal)"
proof -
  from a have s: "sym_abc a = ''ACDEFGHIKLMNPQRSTVWY-BJZOUX*~''" and i: "inmap a =
      (replicate 42 254 @ [27, 254, 254, 20] @ replicate 19 254 @
       [0, 21, 1, 2, 3, 4, 5, 6, 7, 22, 8, 9, 10, 11, 24, 12, 13, 14, 15, 16, 25, 17, 18, 26, 19, 23] @
       replicate 35 254 @ [28, 254])"
    unfolding AminoAcidAlphabet_ctor_value by auto
  from n have "c \<notin> {65, 67, 68, 69, 70, 71, 72, 73, 75, 76, 77, 78, 80, 81, 82, 83, 84, 86, 87, 89, 45,
      66, 74, 90, 79, 85, 88, 42, 126}"
    unfolding s symbol_codes .
  moreover from c have "c \<in> {0..<128}" by simp
  ultimately have "vec_read (inmap a) c = Some 254"
    unfolding i using unmapped_literal[THEN bspec, of c] by blast
  then show ?thesis by (simp add: digitalResidueIllegal_def)
qed

text \<open>
  C8: the constructor succeeds with \<open>K = 20\<close> and \<open>Kp = 29\<close>, and its tables are these.
  Every canonical index \<open>x\<close> in \<open>[0, 20)\<close> has \<open>ndegen[x] = 1\<close>, \<open>degen(x, x) = 1\<close>,
  \<open>degen(x, y) = 0\<close> for the other canonical \<open>y\<close>, and \<open>inmap\<close> sends the symbol of \<open>x\<close>
  back to \<open>x\<close>. The index \<open>Kp - 3 = 26\<close>, the symbol \<open>X\<close>, has \<open>ndegen = 20\<close> and
  \<open>degen = 1\<close> for all 20 canonical residues. Every other index from 20 to 28 has
  \<open>ndegen = 0\<close> and a row of zeros. Every code in \<open>[0, 128)\<close> that is not the code of one
  of the 29 symbols is sent to the illegal index 254.
\<close>

theorem AminoAcidAlphabet_ctor_tables:
  "\<exists>a. AminoAcidAlphabet_ctor = Some a \<and> K a = 20 \<and> Kp a = 29 \<and>
     (\<forall>x\<in>{0..<20}.
        vec_read (ndegen a) x = Some 1 \<and> get_degen a x x = Some 1 \<and>
        (\<forall>y\<in>{0..<20}. y \<noteq> x \<longrightarrow> get_degen a x y = Some 0) \<and>
        (\<exists>c. vec_read (sym_abc a) x = Some c \<and> vec_read (inmap a) (int_of_char c) = Some x)) \<and>
     Kp a - 3 = 26 \<and> vec_read (sym_abc a) 26 = Some CHR ''X'' \<and>
     vec_read (ndegen a) 26 = Some 20 \<and> (\<forall>y\<in>{0..<20}. get_degen a 26 y = Some 1) \<and>
     (\<forall>x\<in>{20..<29}. x \<noteq> 26 \<longrightarrow>
        vec_read (ndegen a) x = Some 0 \<and> (\<forall>y\<in>{0..<20}. get_degen a x y = Some 0)) \<and>
     length (sym_abc a) = 29 \<and> length (inmap a) = 128 \<and>
     (\<forall>c\<in>{0..<128}. c \<notin> int_of_char ` set (sym_abc a) \<longrightarrow>
        vec_read (inmap a) c = Some (uint digitalResidueIllegal))"
proof -
  obtain a where a: "AminoAcidAlphabet_ctor = Some a"
    using AminoAcidAlphabet_ctor_value by blast
  have basic: "K a = 20" "Kp a = 29" "vec_read (sym_abc a) 26 = Some CHR ''X''"
    "length (sym_abc a) = 29" "length (inmap a) = 128"
    using a unfolding AminoAcidAlphabet_ctor_value by (auto simp: vec_read_table)
  have 1: "vec_read (ndegen a) x = Some 1 \<and> get_degen a x x = Some 1 \<and>
        (\<forall>y\<in>{0..<20}. y \<noteq> x \<longrightarrow> get_degen a x y = Some 0) \<and>
        (\<exists>c. vec_read (sym_abc a) x = Some c \<and> vec_read (inmap a) (int_of_char c) = Some x)"
    if "x \<in> {0..<20}" for x
    using that canonical_rows[OF a, of x] symbols_map_back[OF a, of x] by auto
  have 2: "vec_read (ndegen a) 26 = Some 20 \<and> (\<forall>y\<in>{0..<20}. get_degen a 26 y = Some 1)"
    using wildcard_row[OF a] wildcard_count[OF a] by auto
  have 3: "vec_read (ndegen a) x = Some 0 \<and> (\<forall>y\<in>{0..<20}. get_degen a x y = Some 0)"
    if "x \<in> {20..<29}" "x \<noteq> 26" for x
    using that other_rows[OF a, of x] other_counts[OF a, of x] by auto
  have 4: "vec_read (inmap a) c = Some (uint digitalResidueIllegal)"
    if "c \<in> {0..<128}" "c \<notin> int_of_char ` set (sym_abc a)" for c
    using that unmapped_codes[OF a, of c] by auto
  from a basic 1 2 3 4 show ?thesis by (intro exI[of _ a]) simp
qed

theorem AminoAcidAlphabet_ctor_tables_witness:
  "\<exists>a. AminoAcidAlphabet_ctor = Some a \<and> get_degen a 3 3 = Some 1 \<and> get_degen a 3 4 = Some 0 \<and>
     get_degen a 26 7 = Some 1 \<and> vec_read (ndegen a) 21 = Some 0 \<and> get_degen a 21 0 = Some 0 \<and>
     vec_read (inmap a) 97 = Some 254 \<and> (97::int) \<notin> int_of_char ` set (sym_abc a)"
proof -
  from AminoAcidAlphabet_ctor_tables obtain a where a: "AminoAcidAlphabet_ctor = Some a"
    and 1: "\<forall>x\<in>{0..<20}.
        vec_read (ndegen a) x = Some 1 \<and> get_degen a x x = Some 1 \<and>
        (\<forall>y\<in>{0..<20}. y \<noteq> x \<longrightarrow> get_degen a x y = Some 0) \<and>
        (\<exists>c. vec_read (sym_abc a) x = Some c \<and> vec_read (inmap a) (int_of_char c) = Some x)"
    and 2: "\<forall>y\<in>{0..<20}. get_degen a 26 y = Some 1"
    and 3: "\<forall>x\<in>{20..<29}. x \<noteq> 26 \<longrightarrow>
        vec_read (ndegen a) x = Some 0 \<and> (\<forall>y\<in>{0..<20}. get_degen a x y = Some 0)"
    and 4: "\<forall>c\<in>{0..<128}. c \<notin> int_of_char ` set (sym_abc a) \<longrightarrow>
        vec_read (inmap a) c = Some (uint digitalResidueIllegal)"
    by blast
  from a have "sym_abc a = ''ACDEFGHIKLMNPQRSTVWY-BJZOUX*~''"
    unfolding AminoAcidAlphabet_ctor_value by auto
  then have s: "(97::int) \<notin> int_of_char ` set (sym_abc a)"
    by (simp only: symbol_codes) simp
  from 1 have "get_degen a 3 3 = Some 1" "get_degen a 3 4 = Some 0" by auto
  moreover from 2 have "get_degen a 26 7 = Some 1" by auto
  moreover from 3 have "vec_read (ndegen a) 21 = Some 0" "get_degen a 21 0 = Some 0" by auto
  moreover from 4 s have "vec_read (inmap a) 97 = Some 254" by (auto simp: digitalResidueIllegal_def)
  ultimately show ?thesis using a s by blast
qed

end
